theory Spec2Isabelle
  imports Main "HOL-Library.Word" "HOL-Library.Signed_Division" "HOL-Library.Sublist"
begin

section \<open>Runtime values (runtime.h)\<close>

text \<open>
  An \<open>ObjectHolder\<close> is a shared pointer to an \<open>Object\<close>; the empty holder is the value
  None. \<open>Number\<close>, \<open>String\<close> and \<open>Bool\<close> objects are immutable, so the model keeps their value
  in place of the pointer. A \<open>Class\<close> object is immutable too, but its methods hold statements
  and statements hold class references, so a holder of a class keeps the address of the class
  in a table of the program's classes. A \<open>ClassInstance\<close> is mutable and shared: a holder of an
  instance keeps its address in the store of instances.
\<close>

type_synonym addr = nat
type_synonym class_ptr = nat

datatype Object =
    Number "32 word"
  | String string
  | Bool bool
  | Class class_ptr
  | ClassInstance addr

type_synonym ObjectHolder = "Object option"

type_synonym Closure = "string \<rightharpoonup> ObjectHolder"

text \<open>\<open>ObjectHolder::TryAs<T>\<close>: a dynamic cast of the held pointer, null on the empty holder.\<close>

fun TryAs_Number :: "ObjectHolder \<Rightarrow> 32 word option" where
  "TryAs_Number (Some (Number v)) = Some v"
| "TryAs_Number _ = None"

fun TryAs_String :: "ObjectHolder \<Rightarrow> string option" where
  "TryAs_String (Some (String v)) = Some v"
| "TryAs_String _ = None"

fun TryAs_Bool :: "ObjectHolder \<Rightarrow> bool option" where
  "TryAs_Bool (Some (Bool v)) = Some v"
| "TryAs_Bool _ = None"

fun TryAs_Class :: "ObjectHolder \<Rightarrow> class_ptr option" where
  "TryAs_Class (Some (Class p)) = Some p"
| "TryAs_Class _ = None"

fun TryAs_ClassInstance :: "ObjectHolder \<Rightarrow> addr option" where
  "TryAs_ClassInstance (Some (ClassInstance a)) = Some a"
| "TryAs_ClassInstance _ = None"

text \<open>\<open>runtime::IsTrue\<close>: the three casts are tried in the order of the source.\<close>

definition IsTrue :: "ObjectHolder \<Rightarrow> bool" where
  "IsTrue object =
     (case TryAs_Bool object of
        Some b \<Rightarrow> b
      | None \<Rightarrow>
          (case TryAs_Number object of
             Some n \<Rightarrow> n \<noteq> 0
           | None \<Rightarrow>
               (case TryAs_String object of
                  Some s \<Rightarrow> s \<noteq> ''''
                | None \<Rightarrow> False)))"

section \<open>Statements (statement.h)\<close>

text \<open>
  The comparator of a \<open>Comparison\<close> node is a \<open>std::function\<close>; the six comparison functions
  of runtime.cpp are the ones the model admits.
\<close>

datatype Comparator =
  CmpEqual | CmpNotEqual | CmpLess | CmpGreater | CmpLessOrEqual | CmpGreaterOrEqual

text \<open>
  A \<open>unique_ptr<Statement>\<close> that the source tests for null before use is an option here.
  \<open>FieldAssignment\<close> owns a \<open>VariableValue\<close>, given by its dotted ids. \<open>NewInstance\<close> owns a
  \<open>ClassInstance\<close> member \<open>class_inst_\<close>: the node carries the address of that member.
  \<open>ClassDefinition\<close> owns the holder of its class.
\<close>

datatype Statement =
    NumericConst "32 word"
  | StringConst string
  | BoolConst bool
  | VariableValue "string list"
  | Assignment string Statement
  | ClassDefinition class_ptr
  | Compound "Statement list"
  | FieldAssignment "string list" string Statement
  | IfElse Statement Statement "Statement option"
  | MethodBody Statement
  | MethodCall Statement string "Statement list"
  | NewInstance addr "Statement list"
  | NoneConst
  | Print "Statement list"
  | Return Statement
  | Not_op "Statement option"
  | Stringify "Statement option"
  | Add "Statement option" "Statement option"
  | And "Statement option" "Statement option"
  | Comparison Comparator "Statement option" "Statement option"
  | Div "Statement option" "Statement option"
  | Mult "Statement option" "Statement option"
  | Or "Statement option" "Statement option"
  | Sub "Statement option" "Statement option"

section \<open>Classes and instances (runtime.h, runtime.cpp)\<close>

record Method =
  name :: string
  formal_params :: "string list"
  body :: Statement

text \<open>
  The members \<open>parent_\<close>, \<open>name_\<close>, \<open>methods_\<close> and \<open>name_to_method_\<close> of the source, in this
  order. \<open>parent_\<close> is a pointer to an immutable class: the model stores the parent itself.
  \<open>name_to_method_\<close> maps a name to a pointer into a \<open>methods_\<close> vector; the methods are
  immutable, so the map holds the method.
\<close>

datatype ClassData =
  ClassData (parent: "ClassData option") (class_name: string) (methods: "Method list")
    (name_to_method: "string \<rightharpoonup> Method")

text \<open>The loop \<open>for (const auto& method : ms) name_to_method_[method.name] = &method\<close>.\<close>

fun register_methods :: "Method list \<Rightarrow> (string \<rightharpoonup> Method) \<Rightarrow> (string \<rightharpoonup> Method)" where
  "register_methods [] m = m"
| "register_methods (method # ms) m = register_methods ms (m(name method \<mapsto> method))"

text \<open>
  The constructor \<open>Class::Class(name, methods, parent)\<close>: with a parent, the loop first runs
  over \<open>parent->methods_\<close>, the vector of the parent's own methods, and then over the
  class's own methods.
\<close>

definition Class_ctor :: "string \<Rightarrow> Method list \<Rightarrow> ClassData option \<Rightarrow> ClassData" where
  "Class_ctor nm ms par =
     ClassData par nm ms
       (register_methods ms
          (case par of
             None \<Rightarrow> Map.empty
           | Some p \<Rightarrow> register_methods (methods p) Map.empty))"

definition GetMethod :: "ClassData \<Rightarrow> string \<Rightarrow> Method option" where
  "GetMethod c nm = name_to_method c nm"

definition GetName :: "ClassData \<Rightarrow> string" where
  "GetName c = class_name c"

section \<open>Execution state and results\<close>

text \<open>
  A \<open>ClassInstance\<close> has the members \<open>cls_\<close>, a reference to its immutable class (the model
  stores the class), and \<open>fields_\<close>, read through \<open>Fields()\<close>. The store maps the address of every instance to it.
  \<open>stream\<close> is the text written so far to the output stream of the context. \<open>moved_from\<close> holds the
  classes whose \<open>ClassDefinition\<close> node has given its holder away (\<open>std::move(cls_)\<close>).
\<close>

record Instance =
  cls :: ClassData
  Fields :: Closure

record State =
  instances :: "addr \<rightharpoonup> Instance"
  stream :: string
  moved_from :: "class_ptr set"

text \<open>
  What ends an evaluation early: a \<open>std::runtime_error\<close> with its message, the
  \<open>ReturnException\<close> of a \<open>return\<close> with its value, and \<open>Abort\<close>, which is no C++ exception
  but the end of the process where the source dereferences a null pointer, fails the assertion
  of \<open>ObjectHolder::operator->\<close> or divides \<open>INT_MIN\<close> by \<open>-1\<close>. No handler of the source
  catches anything but \<open>ReturnException\<close>.
\<close>

datatype exception = runtime_error string | ReturnException ObjectHolder | Abort

text \<open>
  A result carries the state it leaves behind, also when it is an exception: the writes made
  before a \<open>return\<close> stay. \<open>Diverge\<close> is the result of an evaluation that ran out of fuel.
\<close>

datatype ('a, 's) result = Ok 'a 's | Raise exception 's | Diverge

definition bind :: "('a, 's) result \<Rightarrow> ('a \<Rightarrow> 's \<Rightarrow> ('b, 's) result) \<Rightarrow> ('b, 's) result" where
  "bind r f = (case r of Ok v s \<Rightarrow> f v s | Raise e s \<Rightarrow> Raise e s | Diverge \<Rightarrow> Diverge)"

text \<open>A call works on the state only: the closure of the caller is untouched by it.\<close>

definition in_closure :: "Closure \<Rightarrow> ('a, State) result \<Rightarrow> ('a, Closure \<times> State) result" where
  "in_closure cl r =
     (case r of Ok v s \<Rightarrow> Ok v (cl, s) | Raise e s \<Rightarrow> Raise e (cl, s) | Diverge \<Rightarrow> Diverge)"

text \<open>The closure of a method call is a local variable of \<open>ClassInstance::Call\<close>.\<close>

definition leave_closure :: "('a, Closure \<times> State) result \<Rightarrow> ('a, State) result" where
  "leave_closure r =
     (case r of Ok v s \<Rightarrow> Ok v (snd s) | Raise e s \<Rightarrow> Raise e (snd s) | Diverge \<Rightarrow> Diverge)"

definition put :: "string \<Rightarrow> State \<Rightarrow> State" where
  "put txt s = s\<lparr>stream := stream s @ txt\<rparr>"

text \<open>\<open>os << int\<close> writes the decimal digits, with a minus sign for a negative number.\<close>

fun show_nat :: "nat \<Rightarrow> string" where
  "show_nat n =
     (if n < 10 then [''0123456789'' ! n]
      else show_nat (n div 10) @ [''0123456789'' ! (n mod 10)])"

definition show_int :: "int \<Rightarrow> string" where
  "show_int i = (if i < 0 then CHR ''-'' # show_nat (nat (- i)) else show_nat (nat i))"

text \<open>\<open>os << this\<close> writes the address of the instance, in hexadecimal after \<open>0x\<close>.\<close>

fun show_hex :: "nat \<Rightarrow> string" where
  "show_hex n =
     (if n < 16 then [''0123456789abcdef'' ! n]
      else show_hex (n div 16) @ [''0123456789abcdef'' ! (n mod 16)])"

definition address_text :: "addr \<Rightarrow> string" where
  "address_text a = ''0x'' @ show_hex a"

text \<open>\<open>std::string::operator<\<close>: lexicographic on the bytes.\<close>

fun string_less :: "string \<Rightarrow> string \<Rightarrow> bool" where
  "string_less [] [] = False"
| "string_less [] (y # ys) = True"
| "string_less (x # xs) [] = False"
| "string_less (x # xs) (y # ys) =
     ((of_char x :: nat) < of_char y \<or> (x = y \<and> string_less xs ys))"

section \<open>Variables (statement.cpp)\<close>

text \<open>
  The loop of \<open>VariableValue::Execute\<close> over \<open>dotted_ids_\<close>. \<open>closure_ptr\<close> points to the
  closure of the caller first and to the fields of an instance afterwards; \<open>current\<close> is
  \<open>current_obj_it->second\<close>, absent while the iterator is not initialised (reading it then is
  undefined in the source).
\<close>

fun VariableValue_loop ::
  "(addr \<rightharpoonup> Instance) \<Rightarrow> string list \<Rightarrow> Closure \<Rightarrow> ObjectHolder option
   \<Rightarrow> exception + ObjectHolder" where
  "VariableValue_loop h [] closure_ptr current =
     (case current of None \<Rightarrow> Inl Abort | Some v \<Rightarrow> Inr v)"
| "VariableValue_loop h (var # rest) closure_ptr current =
     (case closure_ptr var of
        None \<Rightarrow> Inl (runtime_error ''var is not found'')
      | Some v \<Rightarrow>
          (case TryAs_ClassInstance v of
             None \<Rightarrow> Inr v
           | Some a \<Rightarrow>
               (case h a of
                  None \<Rightarrow> Inl Abort
                | Some inst \<Rightarrow> VariableValue_loop h rest (Fields inst) (Some v))))"

definition VariableValue_Execute ::
  "string list \<Rightarrow> Closure \<Rightarrow> State \<Rightarrow> (ObjectHolder, Closure \<times> State) result" where
  "VariableValue_Execute dotted_ids closure st =
     (case VariableValue_loop (instances st) dotted_ids closure None of
        Inl e \<Rightarrow> Raise e (closure, st)
      | Inr v \<Rightarrow> Ok v (closure, st))"

section \<open>Method calls (runtime.cpp)\<close>

definition HasMethod :: "ClassData \<Rightarrow> string \<Rightarrow> nat \<Rightarrow> bool" where
  "HasMethod c method argument_count =
     (case GetMethod c method of
        None \<Rightarrow> False
      | Some method_ptr \<Rightarrow> length (formal_params method_ptr) = argument_count)"

text \<open>
  The loop \<open>closure[method_ptr->formal_params[i]] = actual_args[i]\<close> of \<open>ClassInstance::Call\<close>,
  which runs over the actual arguments; \<open>HasMethod\<close> has made the two lists equally long.
\<close>

fun bind_params :: "string list \<Rightarrow> ObjectHolder list \<Rightarrow> Closure \<Rightarrow> Closure" where
  "bind_params (p # ps) (v # vs) closure = bind_params ps vs (closure(p \<mapsto> v))"
| "bind_params _ _ closure = closure"

definition Call_closure :: "addr \<Rightarrow> Method \<Rightarrow> ObjectHolder list \<Rightarrow> Closure" where
  "Call_closure this method_ptr actual_args =
     bind_params (formal_params method_ptr) actual_args
       (Map.empty(''self'' \<mapsto> Some (ClassInstance this)))"

section \<open>Evaluation (statement.cpp, runtime.cpp)\<close>

text \<open>
  \<open>Execute n C stmt closure st\<close> is \<open>stmt->Execute(closure, context)\<close>: \<open>C\<close> is the table of the
  program's classes, \<open>st\<close> the store of instances with the output of the context, and \<open>n\<close> is
  fuel: every call of one of the functions below takes one unit, and an evaluation that needs
  more than it was given ends in \<open>Diverge\<close>. A method of the interpreted program may call itself
  without end, so no evaluation function without fuel is total.

  The case of the statement is the virtual dispatch of \<open>Execute\<close>; \<open>Print_Object\<close> is the
  virtual dispatch of \<open>Object::Print\<close>, writing to the stream of its context. \<open>ExecuteArgs\<close>
  is the loop that fills \<open>actual_args\<close> in \<open>MethodCall\<close> and \<open>NewInstance\<close>, \<open>ExecuteStatements\<close>
  the loop of \<open>Compound\<close>, and \<open>PrintArgs\<close> the loop of \<open>Print\<close> with its variables \<open>is_first\<close>
  and \<open>obj\<close>. Signed overflow of \<open>+\<close>, \<open>-\<close> and \<open>*\<close> on \<open>int\<close> wraps around, as the machine does;
  \<open>/\<close> truncates towards zero. In \<open>Assignment\<close> and \<open>FieldAssignment\<close> the right operand of \<open>=\<close> is
  evaluated before the left one (C++17).
\<close>

function (sequential) Execute ::
    "nat \<Rightarrow> (class_ptr \<rightharpoonup> ClassData) \<Rightarrow> Statement \<Rightarrow> Closure \<Rightarrow> State
     \<Rightarrow> (ObjectHolder, Closure \<times> State) result"
  and ExecuteArgs ::
    "nat \<Rightarrow> (class_ptr \<rightharpoonup> ClassData) \<Rightarrow> Statement list \<Rightarrow> Closure \<Rightarrow> State
     \<Rightarrow> (ObjectHolder list, Closure \<times> State) result"
  and ExecuteStatements ::
    "nat \<Rightarrow> (class_ptr \<rightharpoonup> ClassData) \<Rightarrow> Statement list \<Rightarrow> Closure \<Rightarrow> State
     \<Rightarrow> (unit, Closure \<times> State) result"
  and PrintArgs ::
    "nat \<Rightarrow> (class_ptr \<rightharpoonup> ClassData) \<Rightarrow> Statement list \<Rightarrow> bool \<Rightarrow> ObjectHolder
     \<Rightarrow> Closure \<Rightarrow> State \<Rightarrow> (ObjectHolder, Closure \<times> State) result"
  and Call ::
    "nat \<Rightarrow> (class_ptr \<rightharpoonup> ClassData) \<Rightarrow> addr \<Rightarrow> string \<Rightarrow> ObjectHolder list \<Rightarrow> State
     \<Rightarrow> (ObjectHolder, State) result"
  and Print_Object ::
    "nat \<Rightarrow> (class_ptr \<rightharpoonup> ClassData) \<Rightarrow> Object \<Rightarrow> State \<Rightarrow> (unit, State) result"
  and Equal ::
    "nat \<Rightarrow> (class_ptr \<rightharpoonup> ClassData) \<Rightarrow> ObjectHolder \<Rightarrow> ObjectHolder \<Rightarrow> State
     \<Rightarrow> (bool, State) result"
  and Less ::
    "nat \<Rightarrow> (class_ptr \<rightharpoonup> ClassData) \<Rightarrow> ObjectHolder \<Rightarrow> ObjectHolder \<Rightarrow> State
     \<Rightarrow> (bool, State) result"
  and NotEqual ::
    "nat \<Rightarrow> (class_ptr \<rightharpoonup> ClassData) \<Rightarrow> ObjectHolder \<Rightarrow> ObjectHolder \<Rightarrow> State
     \<Rightarrow> (bool, State) result"
  and Greater ::
    "nat \<Rightarrow> (class_ptr \<rightharpoonup> ClassData) \<Rightarrow> ObjectHolder \<Rightarrow> ObjectHolder \<Rightarrow> State
     \<Rightarrow> (bool, State) result"
  and LessOrEqual ::
    "nat \<Rightarrow> (class_ptr \<rightharpoonup> ClassData) \<Rightarrow> ObjectHolder \<Rightarrow> ObjectHolder \<Rightarrow> State
     \<Rightarrow> (bool, State) result"
  and GreaterOrEqual ::
    "nat \<Rightarrow> (class_ptr \<rightharpoonup> ClassData) \<Rightarrow> ObjectHolder \<Rightarrow> ObjectHolder \<Rightarrow> State
     \<Rightarrow> (bool, State) result"
where
  "Execute 0 C stmt closure st = Diverge"
| "Execute (Suc n) C stmt closure st =
     (case stmt of
        NumericConst v \<Rightarrow>
          (Ok (Some (Number v)) (closure, st))
      | StringConst v \<Rightarrow>
          (Ok (Some (String v)) (closure, st))
      | BoolConst v \<Rightarrow>
          (Ok (Some (Bool v)) (closure, st))
      | NoneConst \<Rightarrow>
          (Ok None (closure, st))
      | VariableValue dotted_ids \<Rightarrow>
          (VariableValue_Execute dotted_ids closure st)
      | Assignment var rv \<Rightarrow>
          (bind (Execute n C rv closure st) (\<lambda>v (cl, s). Ok v (cl(var \<mapsto> v), s)))
      | ClassDefinition p \<Rightarrow>
          (if p \<in> moved_from st then Raise Abort (closure, st)
          else
            (case C p of
               None \<Rightarrow> Raise Abort (closure, st)
             | Some c \<Rightarrow>
                 Ok None (closure(GetName c \<mapsto> Some (Class p)),
                          st\<lparr>moved_from := insert p (moved_from st)\<rparr>)))
      | Compound statements \<Rightarrow>
          (bind (ExecuteStatements n C statements closure st) (\<lambda>_ s. Ok None s))
      | FieldAssignment object field_name rv \<Rightarrow>
          (bind (VariableValue_Execute object closure st) (\<lambda>obj (cl, s).
           bind (Execute n C rv cl s) (\<lambda>v (cl', s').
             (case TryAs_ClassInstance obj of
                None \<Rightarrow> Raise Abort (cl', s')
              | Some a \<Rightarrow>
                  (case instances s' a of
                     None \<Rightarrow> Raise Abort (cl', s')
                   | Some inst \<Rightarrow>
                       Ok v (cl', s'\<lparr>instances := (instances s')
                         (a \<mapsto> inst\<lparr>Fields := (Fields inst)(field_name \<mapsto> v)\<rparr>)\<rparr>))))))
      | IfElse condition if_body else_body \<Rightarrow>
          (bind (Execute n C condition closure st) (\<lambda>bool_condition (cl, s).
           if IsTrue bool_condition then Execute n C if_body cl s
           else
             (case else_body of
                Some e \<Rightarrow> Execute n C e cl s
              | None \<Rightarrow> Ok None (cl, s))))
      | MethodBody b \<Rightarrow>
          (case Execute n C b closure st of
            Ok v s \<Rightarrow> Ok None s
          | Raise (ReturnException obj) s \<Rightarrow> Ok obj s
          | Raise e s \<Rightarrow> Raise e s
          | Diverge \<Rightarrow> Diverge)
      | MethodCall object method_name args \<Rightarrow>
          (bind (Execute n C object closure st) (\<lambda>obj (cl, s).
           bind (ExecuteArgs n C args cl s) (\<lambda>actual_args (cl', s').
             (case TryAs_ClassInstance obj of
                None \<Rightarrow> Raise Abort (cl', s')
              | Some a \<Rightarrow> in_closure cl' (Call n C a method_name actual_args s')))))
      | NewInstance class_inst args \<Rightarrow>
          (bind (ExecuteArgs n C args closure st) (\<lambda>actual_args (cl, s).
           (case instances s class_inst of
              None \<Rightarrow> Raise Abort (cl, s)
            | Some inst \<Rightarrow>
                if HasMethod (cls inst) ''__init__'' (length args)
                then bind (in_closure cl (Call n C class_inst ''__init__'' actual_args s))
                       (\<lambda>_ s'. Ok (Some (ClassInstance class_inst)) s')
                else Ok (Some (ClassInstance class_inst)) (cl, s))))
      | Print args \<Rightarrow>
          (bind (PrintArgs n C args True None closure st) (\<lambda>obj (cl, s).
           Ok obj (cl, put [CHR 0x0A] s)))
      | Return statement \<Rightarrow>
          (bind (Execute n C statement closure st) (\<lambda>v s. Raise (ReturnException v) s))
      | Not_op argument \<Rightarrow>
          (case argument of
            None \<Rightarrow> Raise (runtime_error ''null operands are not supported'') (closure, st)
          | Some arg \<Rightarrow>
              bind (Execute n C arg closure st) (\<lambda>v s. Ok (Some (Bool (\<not> IsTrue v))) s))
      | Stringify argument \<Rightarrow>
          (case argument of
            None \<Rightarrow> Raise Abort (closure, st)
          | Some arg \<Rightarrow>
              bind (Execute n C arg closure st) (\<lambda>obj (cl, s).
                (case obj of
                   None \<Rightarrow> Ok (Some (String ''None'')) (cl, s)
                 | Some ob \<Rightarrow>
                     (case Print_Object n C ob (s\<lparr>stream := []\<rparr>) of
                        Ok _ d \<Rightarrow> Ok (Some (String (stream d))) (cl, d\<lparr>stream := stream s\<rparr>)
                      | Raise e d \<Rightarrow> Raise e (cl, d\<lparr>stream := stream s\<rparr>)
                      | Diverge \<Rightarrow> Diverge))))
      | Add lhs rhs \<Rightarrow>
          (case (lhs, rhs) of
            (Some l, Some r) \<Rightarrow>
              bind (Execute n C l closure st) (\<lambda>obj_lhs (cl, s).
                bind (Execute n C r cl s) (\<lambda>obj_rhs (cl', s').
                  (case (TryAs_Number obj_lhs, TryAs_Number obj_rhs) of
                     (Some l_num, Some r_num) \<Rightarrow> Ok (Some (Number (l_num + r_num))) (cl', s')
                   | _ \<Rightarrow>
                       (case (TryAs_String obj_lhs, TryAs_String obj_rhs) of
                          (Some l_str, Some r_str) \<Rightarrow> Ok (Some (String (l_str @ r_str))) (cl', s')
                        | _ \<Rightarrow>
                            (case TryAs_ClassInstance obj_lhs of
                               Some a \<Rightarrow>
                                 (case instances s' a of
                                    None \<Rightarrow> Raise Abort (cl', s')
                                  | Some inst \<Rightarrow>
                                      if HasMethod (cls inst) ''__add__'' 1
                                      then in_closure cl' (Call n C a ''__add__'' [obj_rhs] s')
                                      else Raise (runtime_error ''incorrect add operands'') (cl', s'))
                             | None \<Rightarrow> Raise (runtime_error ''incorrect add operands'') (cl', s'))))))
          | _ \<Rightarrow> Raise (runtime_error ''null operands are not supported'') (closure, st))
      | And lhs rhs \<Rightarrow>
          (case (lhs, rhs) of
            (Some l, Some r) \<Rightarrow>
              bind (Execute n C l closure st) (\<lambda>l_obj (cl, s).
                bind (Execute n C r cl s) (\<lambda>r_obj s'.
                  if IsTrue l_obj \<and> IsTrue r_obj then Ok (Some (Bool True)) s'
                  else Ok (Some (Bool False)) s'))
          | _ \<Rightarrow> Raise (runtime_error ''null operands are not supported'') (closure, st))
      | Comparison cmp lhs rhs \<Rightarrow>
          (case (lhs, rhs) of
            (Some l, Some r) \<Rightarrow>
              bind (Execute n C l closure st) (\<lambda>l_obj (cl, s).
                bind (Execute n C r cl s) (\<lambda>r_obj (cl', s').
                  bind (in_closure cl'
                         (case cmp of
                            CmpEqual \<Rightarrow> Equal n C l_obj r_obj s'
                          | CmpNotEqual \<Rightarrow> NotEqual n C l_obj r_obj s'
                          | CmpLess \<Rightarrow> Less n C l_obj r_obj s'
                          | CmpGreater \<Rightarrow> Greater n C l_obj r_obj s'
                          | CmpLessOrEqual \<Rightarrow> LessOrEqual n C l_obj r_obj s'
                          | CmpGreaterOrEqual \<Rightarrow> GreaterOrEqual n C l_obj r_obj s'))
                    (\<lambda>res s''. Ok (Some (Bool res)) s'')))
          | _ \<Rightarrow> Raise (runtime_error ''null operands are not supported'') (closure, st))
      | Div lhs rhs \<Rightarrow>
          (case (lhs, rhs) of
            (Some l, Some r) \<Rightarrow>
              bind (Execute n C l closure st) (\<lambda>obj_lhs (cl, s).
                bind (Execute n C r cl s) (\<lambda>obj_rhs s'.
                  (case (TryAs_Number obj_lhs, TryAs_Number obj_rhs) of
                     (Some l_num, Some r_num) \<Rightarrow>
                       if r_num = 0 then Raise (runtime_error ''division by zero'') s'
                       else if l_num = - (2 ^ 31) \<and> r_num = - 1 then Raise Abort s'
                       else Ok (Some (Number (word_of_int (sint l_num sdiv sint r_num)))) s'
                   | _ \<Rightarrow> Raise (runtime_error ''incorrect div operands'') s')))
          | _ \<Rightarrow> Raise (runtime_error ''null operands are not supported'') (closure, st))
      | Mult lhs rhs \<Rightarrow>
          (case (lhs, rhs) of
            (Some l, Some r) \<Rightarrow>
              bind (Execute n C l closure st) (\<lambda>obj_lhs (cl, s).
                bind (Execute n C r cl s) (\<lambda>obj_rhs s'.
                  (case (TryAs_Number obj_lhs, TryAs_Number obj_rhs) of
                     (Some l_num, Some r_num) \<Rightarrow> Ok (Some (Number (l_num * r_num))) s'
                   | _ \<Rightarrow> Raise (runtime_error ''incorrect mult operands'') s')))
          | _ \<Rightarrow> Raise (runtime_error ''null operands are not supported'') (closure, st))
      | Or lhs rhs \<Rightarrow>
          (case (lhs, rhs) of
            (Some l, Some r) \<Rightarrow>
              bind (Execute n C l closure st) (\<lambda>l_obj (cl, s).
                bind (Execute n C r cl s) (\<lambda>r_obj s'.
                  if IsTrue l_obj then Ok (Some (Bool True)) s'
                  else if IsTrue r_obj then Ok (Some (Bool True)) s'
                  else Ok (Some (Bool False)) s'))
          | _ \<Rightarrow> Raise (runtime_error ''null operands are not supported'') (closure, st))
      | Sub lhs rhs \<Rightarrow>
          (case (lhs, rhs) of
            (Some l, Some r) \<Rightarrow>
              bind (Execute n C l closure st) (\<lambda>obj_lhs (cl, s).
                bind (Execute n C r cl s) (\<lambda>obj_rhs s'.
                  (case (TryAs_Number obj_lhs, TryAs_Number obj_rhs) of
                     (Some l_num, Some r_num) \<Rightarrow> Ok (Some (Number (l_num - r_num))) s'
                   | _ \<Rightarrow> Raise (runtime_error ''incorrect sub operands'') s')))
          | _ \<Rightarrow> Raise (runtime_error ''null operands are not supported'') (closure, st)))"
| "ExecuteArgs 0 C args closure st = Diverge"
| "ExecuteArgs (Suc n) C [] closure st = Ok [] (closure, st)"
| "ExecuteArgs (Suc n) C (arg # rest) closure st =
     bind (Execute n C arg closure st) (\<lambda>v (cl, s).
       bind (ExecuteArgs n C rest cl s) (\<lambda>vs s'. Ok (v # vs) s'))"
| "ExecuteStatements 0 C statements closure st = Diverge"
| "ExecuteStatements (Suc n) C [] closure st = Ok () (closure, st)"
| "ExecuteStatements (Suc n) C (statement # rest) closure st =
     bind (Execute n C statement closure st) (\<lambda>_ (cl, s). ExecuteStatements n C rest cl s)"
| "PrintArgs 0 C args is_first obj closure st = Diverge"
| "PrintArgs (Suc n) C [] is_first obj closure st = Ok obj (closure, st)"
| "PrintArgs (Suc n) C (arg # rest) is_first obj closure st =
     bind (Execute n C arg closure (if \<not> is_first then put '' '' st else st)) (\<lambda>v (cl, s).
       bind (in_closure cl
              (case v of
                 Some ob \<Rightarrow> Print_Object n C ob s
               | None \<Rightarrow> Ok () (put ''None'' s)))
         (\<lambda>_ (cl', s'). PrintArgs n C rest False v cl' s'))"
| "Call 0 C this method actual_args st = Diverge"
| "Call (Suc n) C this method actual_args st =
     (case instances st this of
        None \<Rightarrow> Raise Abort st
      | Some inst \<Rightarrow>
          if \<not> HasMethod (cls inst) method (length actual_args)
          then Raise (runtime_error ''Not implemented'') st
          else
            (case GetMethod (cls inst) method of
               None \<Rightarrow> Raise Abort st
             | Some method_ptr \<Rightarrow>
                 leave_closure
                   (Execute n C (body method_ptr) (Call_closure this method_ptr actual_args) st)))"
| "Print_Object 0 C ob st = Diverge"
| "Print_Object (Suc n) C ob st =
     (case ob of
        Number v \<Rightarrow>
          (Ok () (put (show_int (sint v)) st))
      | String v \<Rightarrow>
          (Ok () (put v st))
      | Bool v \<Rightarrow>
          (Ok () (put (if v then ''True'' else ''False'') st))
      | Class p \<Rightarrow>
          (case C p of
            None \<Rightarrow> Raise Abort st
          | Some c \<Rightarrow> Ok () (put (''Class '' @ GetName c) st))
      | ClassInstance this \<Rightarrow>
          (case instances st this of
            None \<Rightarrow> Raise Abort st
          | Some inst \<Rightarrow>
              (case GetMethod (cls inst) ''__str__'' of
                 Some method_ptr \<Rightarrow>
                   bind (Call n C this (name method_ptr) [] st) (\<lambda>res s.
                     (case res of
                        None \<Rightarrow> Raise Abort s
                      | Some ob \<Rightarrow> Print_Object n C ob s))
               | None \<Rightarrow> Ok () (put (address_text this) st))))"
| "Equal 0 C lhs rhs st = Diverge"
| "Equal (Suc n) C lhs rhs st =
     (if lhs = None \<and> rhs = None then Ok True st
      else if lhs = None then Raise (runtime_error ''Cannot compare objects for equality'') st
      else
        (case (TryAs_Number lhs, TryAs_Number rhs) of
           (Some l, Some r) \<Rightarrow> Ok (l = r) st
         | _ \<Rightarrow>
             (case (TryAs_String lhs, TryAs_String rhs) of
                (Some l, Some r) \<Rightarrow> Ok (l = r) st
              | _ \<Rightarrow>
                  (case (TryAs_Bool lhs, TryAs_Bool rhs) of
                     (Some l, Some r) \<Rightarrow> Ok (l = r) st
                   | _ \<Rightarrow>
                       (case TryAs_ClassInstance lhs of
                          Some a \<Rightarrow>
                            (case instances st a of
                               None \<Rightarrow> Raise Abort st
                             | Some inst \<Rightarrow>
                                 if HasMethod (cls inst) ''__eq__'' 1
                                 then bind (Call n C a ''__eq__'' [rhs] st) (\<lambda>res s.
                                        (case TryAs_Bool res of
                                           None \<Rightarrow> Raise Abort s
                                         | Some b \<Rightarrow> Ok b s))
                                 else Raise (runtime_error ''Cannot compare objects for equality'') st)
                        | None \<Rightarrow> Raise (runtime_error ''Cannot compare objects for equality'') st)))))"
| "Less 0 C lhs rhs st = Diverge"
| "Less (Suc n) C lhs rhs st =
     (if lhs = None then Raise (runtime_error ''Cannot compare objects for equality'') st
      else
        (case (TryAs_Number lhs, TryAs_Number rhs) of
           (Some l, Some r) \<Rightarrow> Ok (l <s r) st
         | _ \<Rightarrow>
             (case (TryAs_String lhs, TryAs_String rhs) of
                (Some l, Some r) \<Rightarrow> Ok (string_less l r) st
              | _ \<Rightarrow>
                  (case (TryAs_Bool lhs, TryAs_Bool rhs) of
                     (Some l, Some r) \<Rightarrow> Ok (\<not> l \<and> r) st
                   | _ \<Rightarrow>
                       (case TryAs_ClassInstance lhs of
                          Some a \<Rightarrow>
                            (case instances st a of
                               None \<Rightarrow> Raise Abort st
                             | Some inst \<Rightarrow>
                                 if HasMethod (cls inst) ''__lt__'' 1
                                 then bind (Call n C a ''__lt__'' [rhs] st) (\<lambda>res s.
                                        (case TryAs_Bool res of
                                           None \<Rightarrow> Raise Abort s
                                         | Some b \<Rightarrow> Ok b s))
                                 else Raise (runtime_error ''Cannot compare objects for less'') st)
                        | None \<Rightarrow> Raise (runtime_error ''Cannot compare objects for less'') st)))))"
| "NotEqual 0 C lhs rhs st = Diverge"
| "NotEqual (Suc n) C lhs rhs st = bind (Equal n C lhs rhs st) (\<lambda>e s. Ok (\<not> e) s)"
| "Greater 0 C lhs rhs st = Diverge"
| "Greater (Suc n) C lhs rhs st =
     bind (Less n C lhs rhs st) (\<lambda>l s.
       if \<not> l then bind (Equal n C lhs rhs s) (\<lambda>e s'. Ok (\<not> e) s') else Ok False s)"
| "LessOrEqual 0 C lhs rhs st = Diverge"
| "LessOrEqual (Suc n) C lhs rhs st =
     bind (Less n C lhs rhs st) (\<lambda>l s.
       if l then Ok True s else bind (Equal n C lhs rhs s) (\<lambda>e s'. Ok e s'))"
| "GreaterOrEqual 0 C lhs rhs st = Diverge"
| "GreaterOrEqual (Suc n) C lhs rhs st = bind (Less n C lhs rhs st) (\<lambda>l s. Ok (\<not> l) s)"
  by pat_completeness auto

termination
  by (relation "measure
        (case_sum
          (case_sum (case_sum fst (case_sum fst fst)) (case_sum fst (case_sum fst fst)))
          (case_sum (case_sum fst (case_sum fst fst)) (case_sum fst (case_sum fst fst))))")
    simp_all

section \<open>Tokens (lexer.h)\<close>

text \<open>
  The alternatives of the variant \<open>parse::Token\<close>, each prefixed with \<open>Tok_\<close>. The value of a
  \<open>Number\<close> token is an \<open>int\<close> of the source: \<open>ParseNumbers\<close> below only builds values of
  the 32-bit range.
\<close>

datatype Token =
    Tok_Number int
  | Tok_Id string
  | Tok_Char char
  | Tok_String string
  | Tok_Class | Tok_Return | Tok_If | Tok_Else | Tok_Def | Tok_Newline | Tok_Print
  | Tok_Indent | Tok_Dedent | Tok_And | Tok_Or | Tok_Not | Tok_Eq | Tok_NotEq
  | Tok_LessOrEq | Tok_GreaterOrEq | Tok_None | Tok_True | Tok_False | Tok_Eof

section \<open>The input stream\<close>

text \<open>
  The \<open>std::istream\<close> the lexer reads: \<open>buf\<close> is the text not yet extracted, \<open>eofbit\<close> and
  \<open>failbit\<close> are the two state flags the lexer can set. \<open>badbit\<close> is not modelled: the lexer puts
  back only the character it has just extracted (in \<open>SkipComment\<close> the line feed that
  \<open>getline\<close> has just discarded), which the stream buffer always accepts.
\<close>

record istream =
  buf :: string
  eofbit :: bool
  failbit :: bool

text \<open>
  Every input function first constructs a sentry: on a stream that is not \<open>good()\<close> it sets
  \<open>failbit\<close> and extracts nothing.
\<close>

definition good :: "istream \<Rightarrow> bool" where
  "good s = (\<not> eofbit s \<and> \<not> failbit s)"

text \<open>
  \<open>input.get(c)\<close> and \<open>input.get()\<close>: at the end of the text both flags are set. The result
  \<open>None\<close> is a failed extraction: the \<open>char\<close> variable of the caller is not assigned, and
  the callers below take it for none of the characters they compare it with.
\<close>

definition get :: "istream \<Rightarrow> char option \<times> istream" where
  "get s =
     (if good s then
        (case buf s of
           [] \<Rightarrow> (None, s\<lparr>eofbit := True, failbit := True\<rparr>)
         | c # cs \<Rightarrow> (Some c, s\<lparr>buf := cs\<rparr>))
      else (None, s\<lparr>failbit := True\<rparr>))"

text \<open>
  \<open>input.peek()\<close>: at the end of the text it sets \<open>eofbit\<close> only and returns
  \<open>Traits::eof()\<close>.
\<close>

definition peek :: "istream \<Rightarrow> char option \<times> istream" where
  "peek s =
     (if good s then
        (case buf s of
           [] \<Rightarrow> (None, s\<lparr>eofbit := True\<rparr>)
         | c # cs \<Rightarrow> (Some c, s))
      else (None, s\<lparr>failbit := True\<rparr>))"

text \<open>
  \<open>input.putback(c)\<close> clears \<open>eofbit\<close>, then constructs the sentry: with \<open>failbit\<close> set
  nothing is put back. The argument is \<open>None\<close> when the caller passes a variable that a failed
  \<open>get\<close> has left unassigned; \<open>failbit\<close> is then already set.
\<close>

definition putback :: "char option \<Rightarrow> istream \<Rightarrow> istream" where
  "putback c s =
     (if failbit s then s\<lparr>eofbit := False\<rparr>
      else
        (case c of
           Some ch \<Rightarrow> s\<lparr>buf := ch # buf s, eofbit := False\<rparr>
         | None \<Rightarrow> s\<lparr>eofbit := False, failbit := True\<rparr>))"

text \<open>
  \<open>std::getline(input, comment, '\n')\<close>, the stream only (the text of the comment is dropped by
  the caller): the line feed is extracted too; without a line feed the rest of the text is
  extracted and \<open>eofbit\<close> is set, with \<open>failbit\<close> if nothing at all was extracted.
\<close>

definition getline :: "istream \<Rightarrow> istream" where
  "getline s =
     (if good s then
        (if dropWhile (\<lambda>c. c \<noteq> CHR 0x0A) (buf s) = []
         then s\<lparr>buf := [], eofbit := True, failbit := (buf s = [])\<rparr>
         else s\<lparr>buf := tl (dropWhile (\<lambda>c. c \<noteq> CHR 0x0A) (buf s))\<rparr>)
      else s\<lparr>failbit := True\<rparr>)"

text \<open>
  The test \<open>input.rdstate() == std::ios_base::eofbit\<close>: \<open>eofbit\<close> and no other flag.
\<close>

definition rdstate_is_eofbit :: "istream \<Rightarrow> bool" where
  "rdstate_is_eofbit s = (eofbit s \<and> \<not> failbit s)"

text \<open>
  The \<open>char\<close> assigned from a result of \<open>peek\<close>: \<open>Traits::eof()\<close> is \<open>-1\<close>, the byte
  \<open>0xFF\<close>.
\<close>

definition to_char :: "char option \<Rightarrow> char" where
  "to_char r = (case r of Some c \<Rightarrow> c | None \<Rightarrow> CHR 0xFF)"

section \<open>Character classes\<close>

text \<open>
  \<open>std::isdigit\<close>, \<open>std::isalpha\<close>, \<open>std::isalnum\<close> and \<open>std::ispunct\<close> in the C locale:
  no byte above 127 is in any of the classes.
\<close>

definition isdigit :: "char \<Rightarrow> bool" where
  "isdigit c = (48 \<le> (of_char c :: nat) \<and> (of_char c :: nat) \<le> 57)"

definition isalpha :: "char \<Rightarrow> bool" where
  "isalpha c = ((65 \<le> (of_char c :: nat) \<and> (of_char c :: nat) \<le> 90)
     \<or> (97 \<le> (of_char c :: nat) \<and> (of_char c :: nat) \<le> 122))"

definition isalnum :: "char \<Rightarrow> bool" where
  "isalnum c = (isalpha c \<or> isdigit c)"

definition ispunct :: "char \<Rightarrow> bool" where
  "ispunct c = ((33 \<le> (of_char c :: nat) \<and> (of_char c :: nat) \<le> 47)
     \<or> (58 \<le> (of_char c :: nat) \<and> (of_char c :: nat) \<le> 64)
     \<or> (91 \<le> (of_char c :: nat) \<and> (of_char c :: nat) \<le> 96)
     \<or> (123 \<le> (of_char c :: nat) \<and> (of_char c :: nat) \<le> 126))"

section \<open>The lexer (lexer.cpp)\<close>

text \<open>
  The exceptions that leave \<open>Lexer::ParseTokens\<close>: the \<open>std::logic_error\<close> thrown by
  \<open>ParseStrings\<close>, with its message, and the \<open>std::out_of_range\<close> thrown by \<open>std::stoi\<close>.
\<close>

datatype lexer_exception = logic_error string | out_of_range

text \<open>
  The stream together with the members \<open>tokens_\<close> and \<open>begin_spaces_count_\<close> of the lexer.
\<close>

record Lexer =
  inp :: istream
  tokens :: "Token list"
  begin_spaces_count :: int

definition emplace_back :: "Token \<Rightarrow> Lexer \<Rightarrow> Lexer" where
  "emplace_back t L = L\<lparr>tokens := tokens L @ [t]\<rparr>"

text \<open>
  The lookup in \<open>keywords_\<close>, as filled by \<open>InitKeywordsDict\<close>.
\<close>

definition ParseKeyword :: "string \<Rightarrow> Token option" where
  "ParseKeyword str =
     map_of
       [(''class'', Tok_Class), (''return'', Tok_Return), (''if'', Tok_If), (''else'', Tok_Else),
        (''def'', Tok_Def), (''print'', Tok_Print), (''or'', Tok_Or), (''None'', Tok_None),
        (''and'', Tok_And), (''not'', Tok_Not), (''True'', Tok_True), (''False'', Tok_False)]
       str"

text \<open>
  The loop shared by \<open>ParseNumbers\<close> and \<open>ParseId\<close>:
  \<open>while (input.get(c)) { if (P(c)) parsed.push_back(c); else { input.putback(c); break; } }\<close>.
\<close>

function read_while :: "(char \<Rightarrow> bool) \<Rightarrow> istream \<Rightarrow> string \<Rightarrow> string \<times> istream" where
  "read_while P s parsed =
     (case get s of
        (None, s') \<Rightarrow> (parsed, s')
      | (Some c, s') \<Rightarrow>
          if P c then read_while P s' (parsed @ [c])
          else (parsed, putback (Some c) s'))"
  by pat_completeness auto
termination
  by (relation "measure (\<lambda>(P, s, parsed). length (buf s))")
    (auto simp: get_def split: if_splits list.splits)

declare read_while.simps [simp del]

text \<open>
  The value of a string of decimal digits. \<open>std::stoi\<close> throws \<open>std::out_of_range\<close> when it
  does not fit an \<open>int\<close>.
\<close>

fun stoi_digits :: "string \<Rightarrow> nat \<Rightarrow> nat" where
  "stoi_digits [] acc = acc"
| "stoi_digits (c # cs) acc = stoi_digits cs (10 * acc + (of_char c - 48))"

definition ParseNumbers :: "Lexer \<Rightarrow> lexer_exception + Lexer" where
  "ParseNumbers L =
     (case peek (inp L) of (r, s) \<Rightarrow>
        if isdigit (to_char r) then
          (case read_while isdigit s [] of (parsed_num, s') \<Rightarrow>
             if stoi_digits parsed_num 0 > 2147483647 then Inl out_of_range
             else Inr (emplace_back (Tok_Number (int (stoi_digits parsed_num 0))) (L\<lparr>inp := s'\<rparr>)))
        else Inr (L\<lparr>inp := s\<rparr>))"

definition ParseId :: "Lexer \<Rightarrow> Lexer" where
  "ParseId L =
     (case peek (inp L) of (r, s) \<Rightarrow>
        if isalpha (to_char r) \<or> to_char r = CHR ''_'' then
          (case read_while (\<lambda>c. isalnum c \<or> c = CHR ''_'') s [] of (parsed_id, s') \<Rightarrow>
             (case ParseKeyword parsed_id of
                Some t \<Rightarrow> emplace_back t (L\<lparr>inp := s'\<rparr>)
              | None \<Rightarrow> emplace_back (Tok_Id parsed_id) (L\<lparr>inp := s'\<rparr>)))
        else L\<lparr>inp := s\<rparr>)"

text \<open>
  \<open>SkipComment\<close> drops the text up to the line feed and puts the line feed back, unless the
  comment ended the text.
\<close>

definition SkipComment :: "istream \<Rightarrow> istream" where
  "SkipComment s =
     (case get s of
        (Some c, s') \<Rightarrow>
          if c = CHR ''#'' then
            (let s'' = getline s'
             in if \<not> rdstate_is_eofbit s'' then putback (Some (CHR 0x0A)) s'' else s'')
          else putback (Some c) s'
      | (None, s') \<Rightarrow> putback None s')"

definition ParseChars :: "Lexer \<Rightarrow> Lexer" where
  "ParseChars L =
     (case peek (inp L) of (r, s) \<Rightarrow>
        if ispunct (to_char r) then
          if to_char r = CHR ''#'' then L\<lparr>inp := SkipComment s\<rparr>
          else
            (case get s of
               (Some c, s') \<Rightarrow> emplace_back (Tok_Char c) (L\<lparr>inp := s'\<rparr>)
             | (None, s') \<Rightarrow> emplace_back (Tok_Char (to_char r)) (L\<lparr>inp := s'\<rparr>))
        else L\<lparr>inp := s\<rparr>)"

text \<open>
  The \<open>switch\<close> on the character after a backslash; \<open>None\<close> is its \<open>default\<close> branch.
\<close>

definition escape :: "char \<Rightarrow> char option" where
  "escape c =
     (if c = CHR ''n'' then Some (CHR 0x0A)
      else if c = CHR ''t'' then Some (CHR 0x09)
      else if c = CHR ''r'' then Some (CHR 0x0D)
      else if c = CHR 0x22 then Some (CHR 0x22)
      else if c = CHR 0x27 then Some (CHR 0x27)
      else if c = CHR 0x5C then Some (CHR 0x5C)
      else None)"

text \<open>
  The loop of \<open>ParseStrings\<close> over the \<open>std::istreambuf_iterator\<close>: it reads the buffer of
  the stream directly and leaves the flags alone. The result is the text of the literal and the
  rest of the buffer. At the end of the text the loop ends without a closing quote.
\<close>

fun ParseStrings_loop :: "char \<Rightarrow> string \<Rightarrow> string \<Rightarrow> lexer_exception + (string \<times> string)" where
  "ParseStrings_loop quote_type [] str = Inr (str, [])"
| "ParseStrings_loop quote_type (current_char # it) str =
     (if current_char = quote_type then Inr (str, it)
      else if current_char = CHR 0x5C then
        (case it of
           [] \<Rightarrow> Inl (logic_error ''String parsing error'')
         | escaped_char # it' \<Rightarrow>
             (case escape escaped_char of
                Some c \<Rightarrow> ParseStrings_loop quote_type it' (str @ [c])
              | None \<Rightarrow>
                  Inl (logic_error (''Unrecognized escape sequence '' @ [CHR 0x5C, escaped_char]))))
      else if current_char = CHR 0x0A \<or> current_char = CHR 0x0D then
        Inl (logic_error ''Unexpected end of line'')
      else ParseStrings_loop quote_type it (str @ [current_char]))"

definition ParseStrings :: "Lexer \<Rightarrow> lexer_exception + Lexer" where
  "ParseStrings L =
     (case get (inp L) of
        (Some quote_type, s) \<Rightarrow>
          if quote_type = CHR 0x27 \<or> quote_type = CHR 0x22 then
            (case ParseStrings_loop quote_type (buf s) [] of
               Inl e \<Rightarrow> Inl e
             | Inr (str, it) \<Rightarrow> Inr (emplace_back (Tok_String str) (L\<lparr>inp := s\<lparr>buf := it\<rparr>\<rparr>)))
          else Inr (L\<lparr>inp := putback (Some quote_type) s\<rparr>)
      | (None, s) \<Rightarrow> Inr (L\<lparr>inp := putback None s\<rparr>))"

definition ParseDoubleChars :: "Lexer \<Rightarrow> Lexer" where
  "ParseDoubleChars L =
     (case get (inp L) of (current_char, s) \<Rightarrow>
        (case peek s of (r, s') \<Rightarrow>
           (let next_char = to_char r in
            if current_char = Some (CHR ''='') \<and> next_char = CHR ''=''
            then emplace_back Tok_Eq (L\<lparr>inp := snd (get s')\<rparr>)
            else if current_char = Some (CHR ''!'') \<and> next_char = CHR ''=''
            then emplace_back Tok_NotEq (L\<lparr>inp := snd (get s')\<rparr>)
            else if current_char = Some (CHR ''>'') \<and> next_char = CHR ''=''
            then emplace_back Tok_GreaterOrEq (L\<lparr>inp := snd (get s')\<rparr>)
            else if current_char = Some (CHR ''<'') \<and> next_char = CHR ''=''
            then emplace_back Tok_LessOrEq (L\<lparr>inp := snd (get s')\<rparr>)
            else L\<lparr>inp := putback current_char s'\<rparr>)))"

text \<open>
  The loop \<open>while (input.get(current_char) && current_char == ' ') ++spaces_counts\<close>, with the
  last value assigned to \<open>current_char\<close>.
\<close>

function ParseIndent_loop :: "istream \<Rightarrow> char option \<Rightarrow> int \<Rightarrow> char option \<times> int \<times> istream" where
  "ParseIndent_loop s current_char spaces_counts =
     (case get s of
        (None, s') \<Rightarrow> (current_char, spaces_counts, s')
      | (Some c, s') \<Rightarrow>
          if c = CHR '' '' then ParseIndent_loop s' (Some c) (spaces_counts + 1)
          else (Some c, spaces_counts, s'))"
  by pat_completeness auto
termination
  by (relation "measure (\<lambda>(s, c, k). length (buf s))")
    (auto simp: get_def split: if_splits list.splits)

declare ParseIndent_loop.simps [simp del]

text \<open>
  \<open>ParseIndent\<close>: the division of \<open>int\<close> by \<open>INDENT_SPACES_COUNT\<close> truncates towards zero
  (\<open>sdiv\<close>). With \<open>indents_count = 0\<close> the final loop appends nothing.
\<close>

definition ParseIndent :: "Lexer \<Rightarrow> Lexer" where
  "ParseIndent L =
     (case ParseIndent_loop (inp L) None 0 of (current_char, spaces_counts, s) \<Rightarrow>
        (let s' = (if \<not> rdstate_is_eofbit s then putback current_char s else s)
         in case peek s' of (r, s'') \<Rightarrow>
              if to_char r = CHR 0x0A \<or> to_char r = CHR ''#'' then L\<lparr>inp := s''\<rparr>
              else
                (let indents_count = (spaces_counts - begin_spaces_count L) sdiv 2
                 in L\<lparr>inp := s'',
                      tokens := tokens L @
                        replicate (nat \<bar>indents_count\<bar>)
                          (if indents_count > 0 then Tok_Indent else Tok_Dedent),
                      begin_spaces_count := spaces_counts\<rparr>)))"

definition ParseNewLine :: "Lexer \<Rightarrow> Lexer" where
  "ParseNewLine L =
     (case get (inp L) of
        (Some c, s) \<Rightarrow>
          if c = CHR 0x0A then
            ParseIndent
              (if tokens L \<noteq> [] \<and> last (tokens L) \<noteq> Tok_Newline
               then emplace_back Tok_Newline (L\<lparr>inp := s\<rparr>)
               else L\<lparr>inp := s\<rparr>)
          else L\<lparr>inp := putback (Some c) s\<rparr>
      | (None, s) \<Rightarrow> L\<lparr>inp := putback None s\<rparr>)"

text \<open>
  \<open>while (input.peek() == ' ') input.get()\<close>.
\<close>

function SkipSpaces :: "istream \<Rightarrow> istream" where
  "SkipSpaces s =
     (case peek s of
        (Some c, s') \<Rightarrow> if c = CHR '' '' then SkipSpaces (snd (get s')) else s'
      | (None, s') \<Rightarrow> s')"
  by pat_completeness auto
termination
  by (relation "measure (\<lambda>s. length (buf s))")
    (auto simp: get_def peek_def split: if_splits list.splits)

declare SkipSpaces.simps [simp del]

text \<open>
  One round of the loop of \<open>Lexer::ParseTokens\<close>, in the order of the source; an exception of
  \<open>ParseStrings\<close> or \<open>ParseNumbers\<close> ends it.
\<close>

definition ParseTokens_body :: "Lexer \<Rightarrow> lexer_exception + Lexer" where
  "ParseTokens_body L =
     (case ParseStrings (ParseNewLine L) of
        Inl e \<Rightarrow> Inl e
      | Inr L1 \<Rightarrow>
          (case ParseNumbers (ParseChars (ParseDoubleChars (ParseId L1))) of
             Inl e \<Rightarrow> Inl e
           | Inr L2 \<Rightarrow> Inr (L2\<lparr>inp := SkipSpaces (inp L2)\<rparr>)))"

text \<open>
  The loop \<open>while (input.get(current_char)) { input.putback(current_char); ... }\<close>. Nothing in
  the source bounds the number of rounds, so the model counts them: \<open>None\<close> is the loop still
  running after \<open>n\<close> rounds.
\<close>

fun ParseTokens_loop :: "nat \<Rightarrow> Lexer \<Rightarrow> (lexer_exception + Lexer) option" where
  "ParseTokens_loop 0 L = None"
| "ParseTokens_loop (Suc n) L =
     (case get (inp L) of
        (None, s) \<Rightarrow> Some (Inr (L\<lparr>inp := s\<rparr>))
      | (Some current_char, s) \<Rightarrow>
          (case ParseTokens_body (L\<lparr>inp := putback (Some current_char) s\<rparr>) of
             Inl e \<Rightarrow> Some (Inl e)
           | Inr L' \<Rightarrow> ParseTokens_loop n L'))"

text \<open>
  The lexer as constructed: no token, \<open>begin_spaces_count_ = 0\<close>, and a fresh stream over the
  text.
\<close>

definition Lexer_init :: "string \<Rightarrow> Lexer" where
  "Lexer_init input =
     \<lparr>inp = \<lparr>buf = input, eofbit = False, failbit = False\<rparr>, tokens = [],
      begin_spaces_count = 0\<rparr>"

text \<open>
  The end of \<open>Lexer::ParseTokens\<close>: a \<open>Newline\<close> after the last token unless that is a
  \<open>Newline\<close> or a \<open>Dedent\<close>, then \<open>Eof\<close>.
\<close>

definition finish_tokens :: "Token list \<Rightarrow> Token list" where
  "finish_tokens ts =
     (if ts \<noteq> [] \<and> last ts \<noteq> Tok_Newline \<and> last ts \<noteq> Tok_Dedent
      then ts @ [Tok_Newline] else ts) @ [Tok_Eof]"

text \<open>
  The token vector that the constructor \<open>Lexer::Lexer\<close> builds from the text, with at most
  \<open>n\<close> rounds of the loop.
\<close>

definition ParseTokens :: "nat \<Rightarrow> string \<Rightarrow> (lexer_exception + Token list) option" where
  "ParseTokens n input =
     (case ParseTokens_loop n (Lexer_init input) of
        None \<Rightarrow> None
      | Some (Inl e) \<Rightarrow> Some (Inl e)
      | Some (Inr L) \<Rightarrow> Some (Inr (finish_tokens (tokens L))))"

section \<open>Example programs\<close>


text \<open>
  Three classes in a chain: \<open>Base\<close> defines \<open>f\<close>, \<open>Middle\<close> extends \<open>Base\<close> and defines \<open>g\<close>,
  \<open>Leaf\<close> extends \<open>Middle\<close> and defines nothing.
\<close>

definition method_f :: Method where
  "method_f = \<lparr>name = ''f'', formal_params = [], body = MethodBody (Return (NumericConst 1))\<rparr>"

definition method_g :: Method where
  "method_g = \<lparr>name = ''g'', formal_params = [], body = MethodBody (Return (NumericConst 2))\<rparr>"

definition class_Base :: ClassData where
  "class_Base = Class_ctor ''Base'' [method_f] None"

definition class_Middle :: ClassData where
  "class_Middle = Class_ctor ''Middle'' [method_g] (Some class_Base)"

definition class_Leaf :: ClassData where
  "class_Leaf = Class_ctor ''Leaf'' [] (Some class_Middle)"

text \<open>
  A factory: the method \<open>make\<close> of \<open>Factory\<close> returns \<open>K()\<close>. The program is
  \<^verbatim>\<open>f = Factory()\<close>, \<^verbatim>\<open>a = f.make()\<close>, \<^verbatim>\<open>a.x = 5\<close>, \<^verbatim>\<open>b = f.make()\<close>, \<^verbatim>\<open>print b.x\<close>.
  The node \<open>Factory()\<close> owns the instance at address 1 and the node \<open>K()\<close> in the body of
  \<open>make\<close> owns the instance at address 2, as their constructors made them: of their class,
  without fields.
\<close>

definition class_K :: ClassData where
  "class_K = Class_ctor ''K'' [] None"

definition method_make :: Method where
  "method_make =
     \<lparr>name = ''make'', formal_params = [], body = MethodBody (Return (NewInstance 2 []))\<rparr>"

definition class_Factory :: ClassData where
  "class_Factory = Class_ctor ''Factory'' [method_make] None"

definition factory_program :: Statement where
  "factory_program = Compound
     [Assignment ''f'' (NewInstance 1 []),
      Assignment ''a'' (MethodCall (VariableValue [''f'']) ''make'' []),
      FieldAssignment [''a''] ''x'' (NumericConst 5),
      Assignment ''b'' (MethodCall (VariableValue [''f'']) ''make'' []),
      Print [VariableValue [''b'', ''x'']]]"

definition factory_State :: State where
  "factory_State =
     \<lparr>instances = [1 \<mapsto> \<lparr>cls = class_Factory, Fields = Map.empty\<rparr>,
                   2 \<mapsto> \<lparr>cls = class_K, Fields = Map.empty\<rparr>],
      stream = [], moved_from = {}\<rparr>"








section \<open>Token vectors and inputs of the lexer\<close>

text \<open>
  A token that \<open>ParseIndent\<close> never appends and that does not end the vector.
\<close>

definition plain :: "Token \<Rightarrow> bool" where
  "plain t = (t \<noteq> Tok_Indent \<and> t \<noteq> Tok_Dedent \<and> t \<noteq> Tok_Eof)"

text \<open>
  What every function of the loop body except \<open>ParseNewLine\<close> does to the lexer: it reads on in
  the text, appends plain tokens and leaves \<open>begin_spaces_count_\<close> alone.
\<close>

definition frame :: "Lexer \<Rightarrow> Lexer \<Rightarrow> bool" where
  "frame L L' =
     (suffix (buf (inp L')) (buf (inp L))
      \<and> (\<exists>new. tokens L' = tokens L @ new \<and> list_all plain new)
      \<and> begin_spaces_count L' = begin_spaces_count L)"

text \<open>The line feed and the printable characters of ASCII, the space included.\<close>

definition printable :: "char \<Rightarrow> bool" where
  "printable c = (c = CHR 0x0A \<or> (32 \<le> (of_char c :: nat) \<and> (of_char c :: nat) \<le> 126))"

text \<open>The stream of a lexer at the head of the main loop: good, with a character to read.\<close>

definition at_char :: "Lexer \<Rightarrow> char \<Rightarrow> string \<Rightarrow> bool" where
  "at_char L c cs = (good (inp L) \<and> buf (inp L) = c # cs)"

text \<open>
  The text after a line feed starts a line that \<open>ParseIndent\<close> skips: after its leading spaces
  comes a line feed or a comment. A line of spaces that ends the text is not skipped.
\<close>

definition blank_line :: "string \<Rightarrow> bool" where
  "blank_line cs =
     (let rest = dropWhile (\<lambda>c. c = CHR '' '') cs
      in rest \<noteq> [] \<and> (hd rest = CHR 0x0A \<or> hd rest = CHR ''#''))"

definition leading_spaces :: "string \<Rightarrow> nat" where
  "leading_spaces cs = length (takeWhile (\<lambda>c. c = CHR '' '') cs)"

text \<open>
  The local \<open>indents_count\<close> of \<open>ParseIndent\<close>, from the text that follows the line feed.
\<close>

definition indents_count :: "Lexer \<Rightarrow> int" where
  "indents_count L =
     (int (leading_spaces (buf (inp L))) - begin_spaces_count L) sdiv 2"

text \<open>The number of \<open>Indent\<close> tokens minus the number of \<open>Dedent\<close> tokens.\<close>

definition net :: "Token list \<Rightarrow> int" where
  "net ts = int (count_list ts Tok_Indent) - int (count_list ts Tok_Dedent)"

definition balanced :: "Token list \<Rightarrow> bool" where
  "balanced ts = (\<forall>k \<le> length ts. 0 \<le> net (take k ts))"

text \<open>
  A text in which every line after the first, unless \<open>ParseIndent\<close> skips it, starts with an
  even number of spaces.
\<close>

fun even_indents :: "string \<Rightarrow> bool" where
  "even_indents [] = True"
| "even_indents (c # cs) =
     ((c = CHR 0x0A \<longrightarrow> blank_line cs \<or> even (leading_spaces cs)) \<and> even_indents cs)"

text \<open>
  On such a text the tracked number of spaces is twice the number of indents that are open.
\<close>

definition indent_inv :: "Lexer \<Rightarrow> bool" where
  "indent_inv L = (balanced (tokens L) \<and> begin_spaces_count L = 2 * net (tokens L))"

definition loop_inv :: "string \<Rightarrow> Lexer \<Rightarrow> bool" where
  "loop_inv input L = (suffix (buf (inp L)) input \<and> indent_inv L)"

text \<open>A stream in which nothing is left to read once it has stopped being good.\<close>

definition settled :: "istream \<Rightarrow> bool" where
  "settled s = (good s \<or> buf s = [])"

text \<open>
  The exceptions that \<open>ParseStrings\<close> throws: a backslash that ends the text, a line end
  inside a literal, and an escape sequence that the \<open>switch\<close> does not know, whose message
  ends with the character after the backslash.
\<close>

definition string_error :: "lexer_exception \<Rightarrow> bool" where
  "string_error e =
     (case e of
        out_of_range \<Rightarrow> False
      | logic_error m \<Rightarrow>
          m = ''String parsing error'' \<or> m = ''Unexpected end of line''
          \<or> (m \<noteq> [] \<and> butlast m = ''Unrecognized escape sequence '' @ [CHR 0x5C]))"

text \<open>
  The shape of a finished token vector: one \<open>Eof\<close>, at the end, and before it, if there is any
  token before it, a \<open>Newline\<close> or a \<open>Dedent\<close>.
\<close>

definition ends_properly :: "Token list \<Rightarrow> bool" where
  "ends_properly ts =
     (ts \<noteq> [] \<and> last ts = Tok_Eof \<and> Tok_Eof \<notin> set (butlast ts)
      \<and> (butlast ts = [] \<or> last (butlast ts) = Tok_Newline \<or> last (butlast ts) = Tok_Dedent))"

text \<open>
  Two small programs. In the first the second line is
  indented by one space and the third by two; in the second the second line is indented by two
  spaces.
\<close>

definition odd_input :: string where
  "odd_input = ''x'' @ [CHR 0x0A] @ '' y'' @ [CHR 0x0A] @ ''  z'' @ [CHR 0x0A] @ ''w''"

definition odd_tokens :: "Token list" where
  "odd_tokens =
     [Tok_Id ''x'', Tok_Newline, Tok_Id ''y'', Tok_Newline, Tok_Id ''z'', Tok_Newline,
      Tok_Dedent, Tok_Id ''w'', Tok_Newline, Tok_Eof]"

definition even_input :: string where
  "even_input = ''a'' @ [CHR 0x0A] @ ''  b'' @ [CHR 0x0A] @ ''c''"

definition even_tokens :: "Token list" where
  "even_tokens =
     [Tok_Id ''a'', Tok_Newline, Tok_Indent, Tok_Id ''b'', Tok_Newline, Tok_Dedent,
      Tok_Id ''c'', Tok_Newline, Tok_Eof]"

text \<open>A lexer that has just read the line feed before a line indented by four spaces.\<close>

definition indent_Lexer :: Lexer where
  "indent_Lexer =
     \<lparr>inp = \<lparr>buf = ''    b'', eofbit = False, failbit = False\<rparr>,
      tokens = [Tok_Id ''a'', Tok_Newline], begin_spaces_count = 0\<rparr>"

section \<open>Truthiness\<close>

text \<open>
  C7. Truthiness of every value: a \<open>Bool\<close> is its own value, a \<open>Number\<close> is true iff it is
  not zero, a \<open>String\<close> is true iff it is not empty, and the empty holder (None), a class and
  a class instance are false.
\<close>

theorem IsTrue_cases:
  "IsTrue (Some (Bool b)) = b
   \<and> IsTrue (Some (Number n)) = (n \<noteq> 0)
   \<and> IsTrue (Some (String s)) = (s \<noteq> [])
   \<and> IsTrue None = False
   \<and> IsTrue (Some (Class c)) = False
   \<and> IsTrue (Some (ClassInstance a)) = False"
  by (simp add: IsTrue_def)

section \<open>Method resolution\<close>

text \<open>
  C3. Methods are inherited from all ancestors through the resolution map. In the source the
  map of a class is filled from the parent's own method vector, not from the parent's map:
  \<open>f\<close> resolves in \<open>Middle\<close>, the parent of \<open>Leaf\<close>, and does not resolve in \<open>Leaf\<close>.
\<close>

theorem GetMethod_grandparent_lost:
  "GetMethod class_Middle ''f'' = Some method_f
   \<and> GetMethod class_Middle ''g'' = Some method_g
   \<and> GetMethod class_Leaf ''g'' = Some method_g
   \<and> GetMethod class_Leaf ''f'' = None"
  by (simp add: GetMethod_def class_Leaf_def class_Middle_def class_Base_def Class_ctor_def
      method_f_def method_g_def)



section \<open>Logical operations\<close>

text \<open>
  C1. \<open>And\<close> evaluates its right operand only if the left one is truthy, \<open>Or\<close> only if the left
  one is falsy. In the source both \<open>Execute\<close> functions evaluate both operands before they
  look at either value: \<open>False and x\<close> and \<open>True or x\<close>, with \<open>x\<close> not defined, raise the error
  of the lookup of \<open>x\<close> where the claim gives \<open>False\<close> and \<open>True\<close>.
\<close>

theorem And_Or_evaluate_rhs:
  "Execute (Suc (Suc n)) C (And (Some (BoolConst False)) (Some (VariableValue [''x''])))
     Map.empty st = Raise (runtime_error ''var is not found'') (Map.empty, st)
   \<and> Execute (Suc (Suc n)) C (Or (Some (BoolConst True)) (Some (VariableValue [''x''])))
     Map.empty st = Raise (runtime_error ''var is not found'') (Map.empty, st)"
  by (simp add: bind_def VariableValue_Execute_def)

section \<open>Instantiation\<close>

text \<open>
  C2. Every evaluation of a \<open>NewInstance\<close> node creates a fresh instance with an empty field
  scope. In the source the node returns a holder of its own member \<open>class_inst_\<close> each time:
  in the factory program both calls of \<open>make\<close> return the instance at address 2, so \<open>a\<close> and
  \<open>b\<close> are the same object, and \<open>print b.x\<close> writes the 5 stored through \<open>a\<close> where a fresh
  instance has no field \<open>x\<close>.
\<close>

theorem NewInstance_same_instance:
  "Execute 20 Map.empty factory_program Map.empty factory_State =
     Ok None
       ([''f'' \<mapsto> Some (ClassInstance 1), ''a'' \<mapsto> Some (ClassInstance 2),
         ''b'' \<mapsto> Some (ClassInstance 2)],
        \<lparr>instances = [1 \<mapsto> \<lparr>cls = class_Factory, Fields = Map.empty\<rparr>,
                      2 \<mapsto> \<lparr>cls = class_K, Fields = [''x'' \<mapsto> Some (Number 5)]\<rparr>],
         stream = ''5'' @ [CHR 0x0A], moved_from = {}\<rparr>)"
  by (simp add: eval_nat_numeral factory_program_def factory_State_def bind_def in_closure_def
      leave_closure_def VariableValue_Execute_def HasMethod_def GetMethod_def class_K_def
      class_Factory_def Class_ctor_def method_make_def Call_closure_def put_def show_int_def)

section \<open>Comparisons\<close>



section \<open>Dotted paths\<close>

text \<open>
  C8. \<open>VariableValue\<close> looks the first name up in the scope; a name that is not found raises
  the runtime error; a value that is no class instance ends the walk and is returned, also
  when names remain; a class instance is returned when no name remains, and otherwise the walk
  goes on with the remaining names in the fields of that instance.
\<close>

theorem VariableValue_walk:
  "VariableValue_Execute (var # rest) closure st =
     (case closure var of
        None \<Rightarrow> Raise (runtime_error ''var is not found'') (closure, st)
      | Some v \<Rightarrow>
          (case v of
             Some (ClassInstance a) \<Rightarrow>
               (case instances st a of
                  None \<Rightarrow> Raise Abort (closure, st)
                | Some inst \<Rightarrow>
                    if rest = [] then Ok v (closure, st)
                    else
                      (case VariableValue_Execute rest (Fields inst) st of
                         Ok r _ \<Rightarrow> Ok r (closure, st)
                       | Raise e _ \<Rightarrow> Raise e (closure, st)
                       | Diverge \<Rightarrow> Diverge))
           | _ \<Rightarrow> Ok v (closure, st)))"
proof (cases rest)
  case Nil
  then show ?thesis
    by (simp add: VariableValue_Execute_def split: option.splits Object.splits)
next
  case (Cons var' rest')
  have "VariableValue_loop h (var' # rest') cl (Some v)
      = VariableValue_loop h (var' # rest') cl None" for h cl v
    by simp
  with Cons show ?thesis
    by (simp add: VariableValue_Execute_def split: option.splits Object.splits sum.splits)
qed

section \<open>Calls\<close>







section \<open>Printing an instance\<close>



section \<open>Closed forms of the loops\<close>

lemma read_while_closed:
  "read_while P s parsed =
     (if good s then
        (parsed @ takeWhile P (buf s),
         if dropWhile P (buf s) = [] then s\<lparr>buf := [], eofbit := True, failbit := True\<rparr>
         else s\<lparr>buf := dropWhile P (buf s)\<rparr>)
      else (parsed, s\<lparr>failbit := True\<rparr>))"
proof (induction "buf s" arbitrary: s parsed)
  case Nil
  then show ?case
    by (subst read_while.simps) (simp add: get_def)
next
  case (Cons c cs)
  show ?case
  proof (cases "good s")
    case False
    then show ?thesis
      by (subst read_while.simps) (simp add: get_def)
  next
    case True
    have g: "good (s\<lparr>buf := cs\<rparr>)" using True by (simp add: good_def)
    have b: "cs = buf (s\<lparr>buf := cs\<rparr>)" by simp
    show ?thesis
      using True Cons(2) [symmetric] Cons(1) [OF b, of "parsed @ [c]"] g
      by (subst read_while.simps) (auto simp: get_def putback_def good_def)
  qed
qed

lemma ParseIndent_loop_closed:
  "ParseIndent_loop s current_char spaces_counts =
     (if good s then
        (if dropWhile (\<lambda>c. c = CHR '' '') (buf s) = [] then
           (if buf s = [] then current_char else Some (CHR '' ''),
            spaces_counts + int (length (takeWhile (\<lambda>c. c = CHR '' '') (buf s))),
            s\<lparr>buf := [], eofbit := True, failbit := True\<rparr>)
         else
           (Some (hd (dropWhile (\<lambda>c. c = CHR '' '') (buf s))),
            spaces_counts + int (length (takeWhile (\<lambda>c. c = CHR '' '') (buf s))),
            s\<lparr>buf := tl (dropWhile (\<lambda>c. c = CHR '' '') (buf s))\<rparr>))
      else (current_char, spaces_counts, s\<lparr>failbit := True\<rparr>))"
proof (induction "buf s" arbitrary: s current_char spaces_counts)
  case Nil
  then show ?case
    by (subst ParseIndent_loop.simps) (simp add: get_def)
next
  case (Cons c cs)
  show ?case
  proof (cases "good s")
    case False
    then show ?thesis
      by (subst ParseIndent_loop.simps) (simp add: get_def)
  next
    case True
    have g: "good (s\<lparr>buf := cs\<rparr>)" using True by (simp add: good_def)
    have b: "cs = buf (s\<lparr>buf := cs\<rparr>)" by simp
    have bs: "buf s = c # cs" using Cons(2) by simp
    show ?thesis
    proof (cases "c = CHR '' ''")
      case sp: True
      have step: "ParseIndent_loop s current_char spaces_counts
          = ParseIndent_loop (s\<lparr>buf := cs\<rparr>) (Some c) (spaces_counts + 1)"
        using True bs sp by (subst ParseIndent_loop.simps) (simp add: get_def)
      show ?thesis
        unfolding step Cons(1) [OF b, of "Some c" "spaces_counts + 1"]
        using True g bs sp by simp
    next
      case nsp: False
      show ?thesis
        using True bs nsp by (subst ParseIndent_loop.simps) (simp add: get_def)
    qed
  qed
qed

lemma SkipSpaces_closed:
  "SkipSpaces s =
     (if good s then
        (if dropWhile (\<lambda>c. c = CHR '' '') (buf s) = [] then s\<lparr>buf := [], eofbit := True\<rparr>
         else s\<lparr>buf := dropWhile (\<lambda>c. c = CHR '' '') (buf s)\<rparr>)
      else s\<lparr>failbit := True\<rparr>)"
proof (induction "buf s" arbitrary: s)
  case Nil
  then show ?case
    by (subst SkipSpaces.simps) (simp add: peek_def)
next
  case (Cons c cs)
  show ?case
  proof (cases "good s")
    case False
    then show ?thesis
      by (subst SkipSpaces.simps) (simp add: peek_def)
  next
    case True
    have g: "good (s\<lparr>buf := cs\<rparr>)" using True by (simp add: good_def)
    have b: "cs = buf (s\<lparr>buf := cs\<rparr>)" by simp
    show ?thesis
      using True Cons(2) [symmetric] Cons(1) [OF b] g
      by (subst SkipSpaces.simps) (auto simp: get_def peek_def good_def)
  qed
qed

lemmas lexer_defs = ParseTokens_def Lexer_init_def finish_tokens_def ParseTokens_body_def
  ParseNewLine_def ParseIndent_def ParseStrings_def ParseId_def ParseDoubleChars_def
  ParseChars_def ParseNumbers_def SkipComment_def emplace_back_def
  get_def peek_def putback_def getline_def good_def rdstate_is_eofbit_def to_char_def
  isdigit_def isalpha_def isalnum_def ispunct_def ParseKeyword_def escape_def
  read_while_closed ParseIndent_loop_closed SkipSpaces_closed

section \<open>What the functions of the loop body leave alone\<close>

lemma frame_refl: "frame L L"
  by (simp add: frame_def)

lemma frame_trans [trans]: "frame L L' \<Longrightarrow> frame L' L'' \<Longrightarrow> frame L L''"
  by (auto simp: frame_def intro: suffix_order.trans)

lemma frameI:
  "suffix (buf s) (buf (inp L)) \<Longrightarrow> list_all plain new
   \<Longrightarrow> frame L (L\<lparr>inp := s, tokens := tokens L @ new\<rparr>)"
  by (auto simp: frame_def)

lemma frame_inp: "suffix (buf s) (buf (inp L)) \<Longrightarrow> frame L (L\<lparr>inp := s\<rparr>)"
  by (simp add: frame_def)

lemma frame_emplace:
  "suffix (buf s) (buf (inp L)) \<Longrightarrow> plain t \<Longrightarrow> frame L (emplace_back t (L\<lparr>inp := s\<rparr>))"
  by (simp add: frame_def emplace_back_def)

lemma suffix_get: "suffix (buf (snd (get s))) (buf s)"
  by (auto simp: get_def suffix_def split: list.splits)

lemma suffix_get': "get s = (c, s') \<Longrightarrow> suffix (buf s') (buf s)"
  using suffix_get [of s] by simp

lemma buf_peek: "buf (snd (peek s)) = buf s"
  by (auto simp: peek_def split: list.splits)

lemma buf_peek': "peek s = (r, s') \<Longrightarrow> buf s' = buf s"
  using buf_peek [of s] by simp

lemma buf_putback_get: "get s = (c, s') \<Longrightarrow> buf (putback c s') = buf s"
  by (auto simp: get_def putback_def good_def split: list.splits if_splits)

lemma buf_putback_get_peek:
  "get s = (c, s') \<Longrightarrow> peek s' = (r, s'') \<Longrightarrow> buf (putback c s'') = buf s"
  by (auto simp: get_def peek_def putback_def good_def split: list.splits if_splits)

lemma suffix_read_while: "suffix (buf (snd (read_while P s acc))) (buf s)"
  by (simp add: read_while_closed suffix_dropWhile)

lemma suffix_read_while': "read_while P s acc = (str, s') \<Longrightarrow> suffix (buf s') (buf s)"
  using suffix_read_while [of P s acc] by simp

lemma suffix_SkipSpaces: "suffix (buf (SkipSpaces s)) (buf s)"
  by (simp add: SkipSpaces_closed suffix_dropWhile)

lemma suffix_tl_dropWhile: "suffix (tl (dropWhile P xs)) xs"
  by (metis suffix_dropWhile suffix_order.trans suffix_tl)

lemma suffix_getline: "suffix (buf (getline s)) (buf s)"
  by (simp add: getline_def suffix_tl_dropWhile)

lemma ParseKeyword_cases:
  "ParseKeyword str = Some t \<Longrightarrow>
     t \<in> {Tok_Class, Tok_Return, Tok_If, Tok_Else, Tok_Def, Tok_Print, Tok_Or, Tok_None,
          Tok_And, Tok_Not, Tok_True, Tok_False}"
  unfolding ParseKeyword_def by (simp split: if_splits)

lemma ParseKeyword_plain: "ParseKeyword str = Some t \<Longrightarrow> plain t"
  by (drule ParseKeyword_cases) (auto simp: plain_def)

lemma frame_ParseId: "frame L (ParseId L)"
proof -
  obtain r s where p: "peek (inp L) = (r, s)" by (cases "peek (inp L)")
  then have b: "buf s = buf (inp L)" by (rule buf_peek')
  obtain str s' where w: "read_while (\<lambda>c. isalnum c \<or> c = CHR ''_'') s [] = (str, s')"
    by (cases "read_while (\<lambda>c. isalnum c \<or> c = CHR ''_'') s []")
  then have "suffix (buf s') (buf (inp L))"
    using suffix_read_while' b by metis
  then show ?thesis
    using p w b
    by (auto simp: ParseId_def plain_def intro!: frame_emplace frame_inp
        dest: ParseKeyword_plain split: option.splits)
qed

lemma frame_ParseDoubleChars: "frame L (ParseDoubleChars L)"
proof -
  obtain c s where g: "get (inp L) = (c, s)" by (cases "get (inp L)")
  obtain r s' where p: "peek s = (r, s')" by (cases "peek s")
  have 1: "suffix (buf (snd (get s'))) (buf (inp L))"
    using suffix_get [of s'] buf_peek' [OF p] suffix_get' [OF g]
    by (auto intro: suffix_order.trans)
  have 2: "suffix (buf (putback c s')) (buf (inp L))"
    using buf_putback_get_peek [OF g p] by simp
  show ?thesis
    using g p 1 2
    by (auto simp: ParseDoubleChars_def Let_def plain_def intro!: frame_emplace frame_inp)
qed

lemma suffix_putback_getline:
  assumes "\<not> rdstate_is_eofbit (getline s)"
  shows "suffix (buf (putback (Some (CHR 0x0A)) (getline s))) (buf s)"
proof (cases "good s")
  case False
  then show ?thesis
    by (simp add: getline_def putback_def)
next
  case True
  show ?thesis
  proof (cases "dropWhile (\<lambda>c. c \<noteq> CHR 0x0A) (buf s) = []")
    case True
    with \<open>good s\<close> assms show ?thesis
      by (auto simp: getline_def putback_def rdstate_is_eofbit_def good_def)
  next
    case False
    then have "hd (dropWhile (\<lambda>c. c \<noteq> CHR 0x0A) (buf s)) = CHR 0x0A"
      using hd_dropWhile [of "\<lambda>c. c \<noteq> CHR 0x0A" "buf s"] by simp
    with False have "CHR 0x0A # tl (dropWhile (\<lambda>c. c \<noteq> CHR 0x0A) (buf s))
        = dropWhile (\<lambda>c. c \<noteq> CHR 0x0A) (buf s)"
      by (metis list.collapse)
    with False \<open>good s\<close> have "buf (putback (Some (CHR 0x0A)) (getline s))
        = dropWhile (\<lambda>c. c \<noteq> CHR 0x0A) (buf s)"
      by (auto simp: getline_def putback_def good_def)
    then show ?thesis
      by (simp add: suffix_dropWhile)
  qed
qed

lemma suffix_SkipComment: "suffix (buf (SkipComment s)) (buf s)"
proof -
  obtain c s' where g: "get s = (c, s')" by (cases "get s")
  have s': "suffix (buf s') (buf s)" using g by (rule suffix_get')
  have 1: "suffix (buf (putback (Some (CHR 0x0A)) (getline s'))) (buf s)"
    if "\<not> rdstate_is_eofbit (getline s')"
    using suffix_putback_getline [OF that] s' by (rule suffix_order.trans)
  have 2: "suffix (buf (getline s')) (buf s)"
    using suffix_getline [of s'] s' by (rule suffix_order.trans)
  have 3: "buf (putback c s') = buf s" using g by (rule buf_putback_get)
  show ?thesis
  proof (cases c)
    case None
    with g 3 show ?thesis by (simp add: SkipComment_def)
  next
    case (Some ch)
    with g 1 2 3 show ?thesis by (simp add: SkipComment_def Let_def)
  qed
qed

lemma frame_ParseChars: "frame L (ParseChars L)"
proof -
  obtain r s where p: "peek (inp L) = (r, s)" by (cases "peek (inp L)")
  then have b: "buf s = buf (inp L)" by (rule buf_peek')
  obtain c s' where g: "get s = (c, s')" by (cases "get s")
  have 1: "suffix (buf s') (buf (inp L))" using suffix_get' [OF g] b by simp
  have 2: "suffix (buf (SkipComment s)) (buf (inp L))" using suffix_SkipComment [of s] b by simp
  show ?thesis
    using p g b 1 2
    by (auto simp: ParseChars_def plain_def intro!: frame_emplace frame_inp
        split: option.splits)
qed

lemma frame_ParseNumbers: "ParseNumbers L = Inr L' \<Longrightarrow> frame L L'"
proof -
  assume a: "ParseNumbers L = Inr L'"
  obtain r s where p: "peek (inp L) = (r, s)" by (cases "peek (inp L)")
  then have b: "buf s = buf (inp L)" by (rule buf_peek')
  obtain str s' where w: "read_while isdigit s [] = (str, s')"
    by (cases "read_while isdigit s []")
  then have "suffix (buf s') (buf (inp L))"
    using suffix_read_while' b by metis
  then show ?thesis
    using a p w b
    by (auto simp: ParseNumbers_def plain_def intro!: frame_emplace frame_inp
        split: if_splits)
qed

lemma suffix_ParseStrings_loop:
  "ParseStrings_loop q b str = Inr (str', it) \<Longrightarrow> suffix it b"
proof (induction q b str rule: ParseStrings_loop.induct)
  case (1 quote_type str)
  then show ?case by simp
next
  case (2 quote_type current_char it' str)
  then show ?case
    by (auto simp: suffix_Cons split: if_splits list.splits option.splits)
qed

lemma frame_ParseStrings: "ParseStrings L = Inr L' \<Longrightarrow> frame L L'"
proof -
  assume a: "ParseStrings L = Inr L'"
  obtain c s where g: "get (inp L) = (c, s)" by (cases "get (inp L)")
  have 1: "suffix (buf s) (buf (inp L))" using g by (rule suffix_get')
  have 2: "buf (putback c s) = buf (inp L)" using g by (rule buf_putback_get)
  have 3: "suffix it (buf (inp L))" if "ParseStrings_loop q (buf s) [] = Inr (str, it)" for q str it
    using suffix_ParseStrings_loop [OF that] 1 by (rule suffix_order.trans)
  show ?thesis
    using a g 1 2 3
    by (auto simp: ParseStrings_def plain_def intro!: frame_emplace frame_inp
        split: option.splits if_splits sum.splits)
qed

lemma frame_SkipSpaces: "frame L (L\<lparr>inp := SkipSpaces (inp L)\<rparr>)"
  by (simp add: frame_inp suffix_SkipSpaces)

section \<open>What each function of the loop body reads\<close>

lemma printable_cases:
  "printable c \<Longrightarrow>
     c = CHR 0x0A \<or> c = CHR '' '' \<or> isalpha c \<or> isdigit c \<or> ispunct c"
proof -
  assume "printable c"
  then consider "c = CHR 0x0A" | "32 \<le> (of_char c :: nat)" "(of_char c :: nat) \<le> 126"
    by (auto simp: printable_def)
  then show ?thesis
  proof cases
    case 1
    then show ?thesis by simp
  next
    case 2
    have "c = CHR '' ''" if "(of_char c :: nat) = 32"
    proof -
      have "(of_char c :: nat) = of_char (CHR '' '')" using that by simp
      then show ?thesis by (simp only: of_char_eq_iff)
    qed
    with 2 show ?thesis
      by (auto simp: isalpha_def isdigit_def ispunct_def)
  qed
qed

lemma get_good: "good s \<Longrightarrow> buf s = c # cs \<Longrightarrow> get s = (Some c, s\<lparr>buf := cs\<rparr>)"
  by (simp add: get_def)

lemma peek_good: "good s \<Longrightarrow> buf s = c # cs \<Longrightarrow> peek s = (Some c, s)"
  by (simp add: peek_def)

lemma putback_get: "good s \<Longrightarrow> buf s = c # cs \<Longrightarrow> putback (Some c) (s\<lparr>buf := cs\<rparr>) = s"
  by (cases s) (simp add: putback_def good_def)

lemma istream_restore:
  "good s \<Longrightarrow> buf s = c # cs \<Longrightarrow> s\<lparr>buf := c # cs, eofbit := False\<rparr> = s"
  by (cases s) (simp add: good_def)

lemma Lexer_restore: "L\<lparr>inp := inp L\<rparr> = L"
  by simp

lemma ParseNewLine_other:
  "at_char L c cs \<Longrightarrow> c \<noteq> CHR 0x0A \<Longrightarrow> ParseNewLine L = L"
  by (simp add: at_char_def ParseNewLine_def get_good putback_get)

lemma ParseStrings_other:
  "at_char L c cs \<Longrightarrow> c \<noteq> CHR 0x27 \<Longrightarrow> c \<noteq> CHR 0x22 \<Longrightarrow> ParseStrings L = Inr L"
  by (simp add: at_char_def ParseStrings_def get_good putback_get)

lemma ParseId_other:
  "at_char L c cs \<Longrightarrow> \<not> isalpha c \<Longrightarrow> c \<noteq> CHR ''_'' \<Longrightarrow> ParseId L = L"
  by (simp add: at_char_def ParseId_def peek_good to_char_def)

lemma ParseChars_other:
  "at_char L c cs \<Longrightarrow> \<not> ispunct c \<Longrightarrow> ParseChars L = L"
  by (simp add: at_char_def ParseChars_def peek_good to_char_def)

lemma ParseNumbers_other:
  "at_char L c cs \<Longrightarrow> \<not> isdigit c \<Longrightarrow> ParseNumbers L = Inr L"
  by (simp add: at_char_def ParseNumbers_def peek_good to_char_def)

lemma putback_peek_restore:
  assumes "good s" "buf s = c # cs"
  shows "putback (Some c) (snd (peek (s\<lparr>buf := cs\<rparr>))) = s"
  using assms by (cases s) (auto simp: peek_def putback_def good_def split: list.splits)

lemma ParseDoubleChars_other:
  assumes "at_char L c cs"
  shows "ParseDoubleChars L = L \<or> suffix (buf (inp (ParseDoubleChars L))) cs"
proof -
  from assms have g: "get (inp L) = (Some c, (inp L)\<lparr>buf := cs\<rparr>)"
    by (simp add: at_char_def get_good)
  obtain r s' where p: "peek ((inp L)\<lparr>buf := cs\<rparr>) = (r, s')"
    by (cases "peek ((inp L)\<lparr>buf := cs\<rparr>)")
  have b: "buf s' = cs" using buf_peek' [OF p] by simp
  have 1: "suffix (buf (snd (get s'))) cs" using suffix_get [of s'] b by simp
  have 2: "putback (Some c) s' = inp L"
    using putback_peek_restore [of "inp L" c cs] assms p by (simp add: at_char_def)
  show ?thesis
    using g p 1 2
    by (auto simp: ParseDoubleChars_def Let_def emplace_back_def)
qed

lemma ParseDoubleChars_digit:
  assumes "at_char L c cs" "isdigit c \<or> c = CHR '' ''"
  shows "ParseDoubleChars L = L"
proof -
  from assms have g: "get (inp L) = (Some c, (inp L)\<lparr>buf := cs\<rparr>)"
    by (simp add: at_char_def get_good)
  obtain r s' where p: "peek ((inp L)\<lparr>buf := cs\<rparr>) = (r, s')"
    by (cases "peek ((inp L)\<lparr>buf := cs\<rparr>)")
  have 2: "putback (Some c) s' = inp L"
    using putback_peek_restore [of "inp L" c cs] assms p by (simp add: at_char_def)
  have 3: "c \<noteq> CHR ''=''" "c \<noteq> CHR ''!''" "c \<noteq> CHR ''>''" "c \<noteq> CHR ''<''"
    using assms(2) by (auto simp: isdigit_def)
  show ?thesis
    using g p 2 3 by (simp add: ParseDoubleChars_def Let_def)
qed

text \<open>Each function consumes the character it is made for.\<close>

lemma ParseStrings_consumes:
  "at_char L c cs \<Longrightarrow> c = CHR 0x27 \<or> c = CHR 0x22 \<Longrightarrow> ParseStrings L = Inr L'
   \<Longrightarrow> suffix (buf (inp L')) cs"
  by (auto simp: at_char_def ParseStrings_def get_good emplace_back_def
      dest: suffix_ParseStrings_loop split: sum.splits)

lemma ParseId_consumes:
  assumes "at_char L c cs" "isalpha c \<or> c = CHR ''_''"
  shows "suffix (buf (inp (ParseId L))) cs"
proof -
  have 1: "isalnum c \<or> c = CHR ''_''" using assms(2) by (auto simp: isalnum_def)
  have "suffix (dropWhile (\<lambda>c. isalnum c \<or> c = CHR ''_'') cs) cs" by (rule suffix_dropWhile)
  with assms 1 show ?thesis
    by (auto simp: at_char_def ParseId_def peek_good to_char_def read_while_closed
        emplace_back_def split: option.splits)
qed

lemma ParseNumbers_consumes:
  assumes "at_char L c cs" "isdigit c" "ParseNumbers L = Inr L'"
  shows "suffix (buf (inp L')) cs"
proof -
  have "suffix (dropWhile isdigit cs) cs" by (rule suffix_dropWhile)
  with assms show ?thesis
    by (auto simp: at_char_def ParseNumbers_def peek_good to_char_def read_while_closed
        emplace_back_def split: if_splits)
qed

lemma SkipComment_consumes:
  assumes "good s" "buf s = CHR ''#'' # cs"
  shows "suffix (buf (SkipComment s)) cs"
proof -
  have g: "get s = (Some (CHR ''#''), s\<lparr>buf := cs\<rparr>)" using assms by (simp add: get_good)
  have 1: "suffix (buf (putback (Some (CHR 0x0A)) (getline (s\<lparr>buf := cs\<rparr>)))) cs"
    if "\<not> rdstate_is_eofbit (getline (s\<lparr>buf := cs\<rparr>))"
    using suffix_putback_getline [OF that] by simp
  have 2: "suffix (buf (getline (s\<lparr>buf := cs\<rparr>))) cs"
    using suffix_getline [of "s\<lparr>buf := cs\<rparr>"] by simp
  show ?thesis
    using g 1 2 by (simp add: SkipComment_def Let_def)
qed

lemma ParseChars_consumes:
  assumes "at_char L c cs" "ispunct c"
  shows "suffix (buf (inp (ParseChars L))) cs"
proof (cases "c = CHR ''#''")
  case True
  with assms show ?thesis
    by (simp add: at_char_def ParseChars_def peek_good to_char_def SkipComment_consumes)
next
  case False
  with assms show ?thesis
    by (simp add: at_char_def ParseChars_def peek_good to_char_def get_good emplace_back_def)
qed

lemma SkipSpaces_consumes:
  "good s \<Longrightarrow> buf s = CHR '' '' # cs \<Longrightarrow> suffix (buf (SkipSpaces s)) cs"
  by (simp add: SkipSpaces_closed suffix_dropWhile)

section \<open>Indentation\<close>

text \<open>\<open>ParseIndent\<close> on a good stream (it is called after a line feed was read).\<close>

lemma ParseIndent_good:
  assumes "good (inp L)"
  shows "buf (inp (ParseIndent L)) = dropWhile (\<lambda>c. c = CHR '' '') (buf (inp L))
    \<and> tokens (ParseIndent L) =
      (if blank_line (buf (inp L)) then tokens L
       else tokens L @
         replicate (nat \<bar>indents_count L\<bar>)
           (if indents_count L > 0 then Tok_Indent else Tok_Dedent))
    \<and> begin_spaces_count (ParseIndent L) =
      (if blank_line (buf (inp L)) then begin_spaces_count L
       else int (leading_spaces (buf (inp L))))"
proof -
  define rest where "rest = dropWhile (\<lambda>c. c = CHR '' '') (buf (inp L))"
  define k where "k = int (length (takeWhile (\<lambda>c. c = CHR '' '') (buf (inp L))))"
  show ?thesis
  proof (cases "rest = []")
    case True
    let ?s1 = "(inp L)\<lparr>buf := [], eofbit := True, failbit := True\<rparr>"
    obtain cur where loop: "ParseIndent_loop (inp L) None 0 = (cur, k, ?s1)"
      using assms True
      by (simp add: ParseIndent_loop_closed rest_def k_def del: dropWhile_eq_Nil_conv)
    have rd: "\<not> rdstate_is_eofbit ?s1" by (simp add: rdstate_is_eofbit_def)
    have pb: "putback cur ?s1 = (inp L)\<lparr>buf := [], eofbit := False, failbit := True\<rparr>"
      by (simp add: putback_def)
    have pk: "peek ((inp L)\<lparr>buf := [], eofbit := False, failbit := True\<rparr>)
        = (None, (inp L)\<lparr>buf := [], eofbit := False, failbit := True\<rparr>)"
      by (simp add: peek_def good_def)
    have nb: "\<not> blank_line (buf (inp L))"
      using True by (simp add: blank_line_def rest_def del: dropWhile_eq_Nil_conv)
    have "ParseIndent L =
        L\<lparr>inp := (inp L)\<lparr>buf := [], eofbit := False, failbit := True\<rparr>,
          tokens := tokens L @ replicate (nat \<bar>indents_count L\<bar>)
            (if indents_count L > 0 then Tok_Indent else Tok_Dedent),
          begin_spaces_count := k\<rparr>"
      by (simp add: ParseIndent_def loop rd pb pk to_char_def Let_def indents_count_def
          leading_spaces_def k_def)
    then show ?thesis
      using nb True [unfolded rest_def, symmetric]
      by (simp add: k_def leading_spaces_def del: dropWhile_eq_Nil_conv)
  next
    case False
    then have c: "hd rest # tl rest = rest" by simp
    let ?s1 = "(inp L)\<lparr>buf := tl rest\<rparr>"
    let ?s2 = "(inp L)\<lparr>buf := rest\<rparr>"
    have loop: "ParseIndent_loop (inp L) None 0 = (Some (hd rest), k, ?s1)"
      using assms False
      by (simp add: ParseIndent_loop_closed rest_def k_def del: dropWhile_eq_Nil_conv)
    have rd: "\<not> rdstate_is_eofbit ?s1"
      using assms by (simp add: rdstate_is_eofbit_def good_def)
    have pb: "putback (Some (hd rest)) ?s1 = ?s2"
      using assms c by (cases "inp L") (simp add: putback_def good_def)
    have pk: "peek ?s2 = (Some (hd rest), ?s2)"
      using assms c [symmetric] by (intro peek_good [where cs = "tl rest"]) (simp_all add: good_def)
    have bl: "blank_line (buf (inp L)) = (hd rest = CHR 0x0A \<or> hd rest = CHR ''#'')"
      using False by (simp add: blank_line_def rest_def Let_def del: dropWhile_eq_Nil_conv)
    have "ParseIndent L =
        (if hd rest = CHR 0x0A \<or> hd rest = CHR ''#'' then L\<lparr>inp := ?s2\<rparr>
         else L\<lparr>inp := ?s2,
          tokens := tokens L @ replicate (nat \<bar>indents_count L\<bar>)
            (if indents_count L > 0 then Tok_Indent else Tok_Dedent),
          begin_spaces_count := k\<rparr>)"
      by (simp add: ParseIndent_def loop rd pb pk to_char_def Let_def indents_count_def
          leading_spaces_def k_def)
    then show ?thesis
      using bl by (simp add: rest_def k_def leading_spaces_def)
  qed
qed

lemma ParseNewLine_nl:
  assumes "at_char L (CHR 0x0A) cs"
  shows "buf (inp (ParseNewLine L)) = dropWhile (\<lambda>c. c = CHR '' '') cs
    \<and> (\<exists>nl. (nl = [] \<or> nl = [Tok_Newline])
        \<and> tokens (ParseNewLine L) =
          (if blank_line cs then tokens L @ nl
           else tokens L @ nl @
             replicate
               (nat \<bar>(int (leading_spaces cs) - begin_spaces_count L) sdiv 2\<bar>)
               (if (int (leading_spaces cs) - begin_spaces_count L) sdiv 2 > 0
                then Tok_Indent else Tok_Dedent)))
    \<and> begin_spaces_count (ParseNewLine L) =
      (if blank_line cs then begin_spaces_count L else int (leading_spaces cs))"
proof -
  let ?s = "(inp L)\<lparr>buf := cs\<rparr>"
  let ?L1 = "if tokens L \<noteq> [] \<and> last (tokens L) \<noteq> Tok_Newline
             then emplace_back Tok_Newline (L\<lparr>inp := ?s\<rparr>) else L\<lparr>inp := ?s\<rparr>"
  have g: "get (inp L) = (Some (CHR 0x0A), ?s)"
    using assms by (simp add: at_char_def get_good)
  then have pn: "ParseNewLine L = ParseIndent ?L1"
    by (simp add: ParseNewLine_def)
  have good1: "good (inp ?L1)" using assms by (simp add: at_char_def good_def emplace_back_def)
  have buf1: "buf (inp ?L1) = cs" by (simp add: emplace_back_def)
  have beg1: "begin_spaces_count ?L1 = begin_spaces_count L" by (simp add: emplace_back_def)
  have tok1: "\<exists>nl. (nl = [] \<or> nl = [Tok_Newline]) \<and> tokens ?L1 = tokens L @ nl"
    by (simp add: emplace_back_def)
  then obtain nl where nl: "nl = [] \<or> nl = [Tok_Newline]" "tokens ?L1 = tokens L @ nl"
    by blast
  have ic: "indents_count ?L1 = (int (leading_spaces cs) - begin_spaces_count L) sdiv 2"
    unfolding indents_count_def buf1 beg1 ..
  note P = ParseIndent_good [OF good1, unfolded buf1 beg1 ic nl(2)]
  show ?thesis
    unfolding pn using P nl(1) by (intro conjI exI [of _ nl]) auto
qed

lemma net_Nil: "net [] = 0"
  by (simp add: net_def)

lemma net_append: "net (xs @ ys) = net xs + net ys"
  by (simp add: net_def)

lemma net_no_dent: "Tok_Indent \<notin> set ts \<Longrightarrow> Tok_Dedent \<notin> set ts \<Longrightarrow> net ts = 0"
  by (simp add: net_def count_list_0_iff)

lemma count_list_replicate: "count_list (replicate m x) y = (if x = y then m else 0)"
  by (induction m) auto

lemma net_replicate_Indent: "net (replicate m Tok_Indent) = int m"
  by (simp add: net_def count_list_replicate)

lemma net_replicate_Dedent: "net (replicate m Tok_Dedent) = - int m"
  by (simp add: net_def count_list_replicate)

lemma balanced_nonneg: "balanced ts \<Longrightarrow> 0 \<le> net ts"
  unfolding balanced_def by (drule spec [of _ "length ts"]) simp

lemma balanced_append:
  assumes "balanced xs" and "\<And>j. j \<le> length ys \<Longrightarrow> 0 \<le> net xs + net (take j ys)"
  shows "balanced (xs @ ys)"
  unfolding balanced_def
proof (intro allI impI)
  fix k assume k: "k \<le> length (xs @ ys)"
  show "0 \<le> net (take k (xs @ ys))"
  proof (cases "k \<le> length xs")
    case True
    with assms(1) show ?thesis by (simp add: balanced_def)
  next
    case False
    with k have "k - length xs \<le> length ys" by simp
    from assms(2) [OF this] False show ?thesis by (simp add: net_append)
  qed
qed

lemma balanced_append_no_dent:
  assumes "balanced xs" "Tok_Indent \<notin> set ys" "Tok_Dedent \<notin> set ys"
  shows "balanced (xs @ ys)"
proof (rule balanced_append [OF assms(1)])
  fix j
  have "Tok_Indent \<notin> set (take j ys)" "Tok_Dedent \<notin> set (take j ys)"
    using assms(2,3) by (auto dest: in_set_takeD)
  then show "0 \<le> net xs + net (take j ys)"
    using balanced_nonneg [OF assms(1)] by (simp add: net_no_dent)
qed

lemma balanced_append_Indent:
  assumes "balanced xs"
  shows "balanced (xs @ replicate m Tok_Indent)"
proof (rule balanced_append [OF assms])
  fix j
  show "0 \<le> net xs + net (take j (replicate m Tok_Indent))"
    using balanced_nonneg [OF assms] by (simp add: net_replicate_Indent)
qed

lemma balanced_append_Dedent:
  assumes "balanced xs" "int m \<le> net xs"
  shows "balanced (xs @ replicate m Tok_Dedent)"
proof (rule balanced_append [OF assms(1)])
  fix j
  show "0 \<le> net xs + net (take j (replicate m Tok_Dedent))"
    using assms(2) by (simp add: net_replicate_Dedent)
qed

lemma plain_no_dent: "list_all plain new \<Longrightarrow> Tok_Indent \<notin> set new \<and> Tok_Dedent \<notin> set new \<and> Tok_Eof \<notin> set new"
  by (auto simp: list_all_iff plain_def)

lemma Inv_frame: "frame L L' \<Longrightarrow> indent_inv L \<Longrightarrow> indent_inv L'"
  by (auto simp: frame_def indent_inv_def net_append net_no_dent balanced_append_no_dent
      dest!: plain_no_dent)

lemma Eof_frame: "frame L L' \<Longrightarrow> Tok_Eof \<notin> set (tokens L) \<Longrightarrow> Tok_Eof \<notin> set (tokens L')"
  by (auto simp: frame_def dest!: plain_no_dent)

lemma sdiv_2_even: "even (x :: int) \<Longrightarrow> 2 * (x sdiv 2) = x"
  by (auto simp: signed_divide_int_def sgn_if elim!: evenE)

lemma even_indents_suffix: "suffix ys xs \<Longrightarrow> even_indents xs \<Longrightarrow> even_indents ys"
  by (induction xs) (auto simp: suffix_Cons)

lemma Inv_ParseNewLine:
  assumes "at_char L c cs" "even_indents (c # cs)" "indent_inv L"
  shows "indent_inv (ParseNewLine L)"
proof (cases "c = CHR 0x0A")
  case False
  with assms show ?thesis by (simp add: ParseNewLine_other)
next
  case True
  let ?k = "int (leading_spaces cs)"
  let ?d = "(?k - begin_spaces_count L) sdiv 2"
  from ParseNewLine_nl [OF assms(1) [unfolded True]]
  obtain nl where nl: "nl = [] \<or> nl = [Tok_Newline]"
    and tk: "tokens (ParseNewLine L) =
          (if blank_line cs then tokens L @ nl
           else tokens L @ nl @ replicate (nat \<bar>?d\<bar>) (if ?d > 0 then Tok_Indent else Tok_Dedent))"
    and bg: "begin_spaces_count (ParseNewLine L) =
      (if blank_line cs then begin_spaces_count L else ?k)"
    by blast
  have nl_nd: "Tok_Indent \<notin> set nl" "Tok_Dedent \<notin> set nl" using nl by auto
  have b1: "balanced (tokens L @ nl)"
    using assms(3) nl_nd by (simp add: indent_inv_def balanced_append_no_dent)
  have n1: "net (tokens L @ nl) = net (tokens L)"
    using nl_nd by (simp add: net_append net_no_dent)
  show ?thesis
  proof (cases "blank_line cs")
    case bl: True
    with tk bg b1 n1 assms(3) show ?thesis by (simp add: indent_inv_def)
  next
    case nb: False
    with assms(2) True have ev: "even (leading_spaces cs)" by simp
    have "even (begin_spaces_count L)" using assms(3) by (simp add: indent_inv_def)
    with ev have "even (?k - begin_spaces_count L)" by simp
    then have d2: "2 * ?d = ?k - begin_spaces_count L" by (rule sdiv_2_even)
    have B: "begin_spaces_count L = 2 * net (tokens L)" using assms(3) by (simp add: indent_inv_def)
    show ?thesis
    proof (cases "?d > 0")
      case pos: True
      have "balanced ((tokens L @ nl) @ replicate (nat \<bar>?d\<bar>) Tok_Indent)"
        using b1 by (rule balanced_append_Indent)
      moreover have "net ((tokens L @ nl) @ replicate (nat \<bar>?d\<bar>) Tok_Indent) = net (tokens L) + ?d"
        using pos n1 by (simp add: net_append net_replicate_Indent del: append_assoc)
      ultimately show ?thesis
        using tk bg nb pos d2 B by (simp add: indent_inv_def)
    next
      case npos: False
      have le: "int (nat \<bar>?d\<bar>) \<le> net (tokens L @ nl)"
        using npos d2 B n1 by simp
      have "balanced ((tokens L @ nl) @ replicate (nat \<bar>?d\<bar>) Tok_Dedent)"
        using b1 le by (rule balanced_append_Dedent)
      moreover have "net ((tokens L @ nl) @ replicate (nat \<bar>?d\<bar>) Tok_Dedent) = net (tokens L) + ?d"
        using npos n1 by (simp add: net_append net_replicate_Dedent del: append_assoc)
      ultimately show ?thesis
        using tk bg nb npos d2 B by (simp add: indent_inv_def)
    qed
  qed
qed

lemma Eof_ParseNewLine:
  assumes "at_char L c cs" "Tok_Eof \<notin> set (tokens L)"
  shows "Tok_Eof \<notin> set (tokens (ParseNewLine L))"
proof (cases "c = CHR 0x0A")
  case False
  with assms show ?thesis by (simp add: ParseNewLine_other)
next
  case True
  from ParseNewLine_nl [OF assms(1) [unfolded True]] assms(2)
  show ?thesis by (auto split: if_splits)
qed

lemma suffix_ParseNewLine:
  assumes "at_char L c cs"
  shows "suffix (buf (inp (ParseNewLine L))) (c # cs)"
proof (cases "c = CHR 0x0A")
  case False
  with assms show ?thesis by (simp add: ParseNewLine_other at_char_def)
next
  case True
  from ParseNewLine_nl [OF assms(1) [unfolded True]]
  have "buf (inp (ParseNewLine L)) = dropWhile (\<lambda>c. c = CHR '' '') cs" by simp
  then show ?thesis
    by (simp add: suffix_Cons suffix_dropWhile)
qed

lemma ParseNewLine_consumes:
  assumes "at_char L (CHR 0x0A) cs"
  shows "suffix (buf (inp (ParseNewLine L))) cs"
  using ParseNewLine_nl [OF assms] by (simp add: suffix_dropWhile)

lemma frame_body:
  assumes "ParseTokens_body L = Inr L'"
  shows "frame (ParseNewLine L) L'"
proof -
  from assms obtain L1 L2 where
    1: "ParseStrings (ParseNewLine L) = Inr L1"
    and 2: "ParseNumbers (ParseChars (ParseDoubleChars (ParseId L1))) = Inr L2"
    and 3: "L' = L2\<lparr>inp := SkipSpaces (inp L2)\<rparr>"
    by (auto simp: ParseTokens_body_def split: sum.splits)
  have "frame (ParseNewLine L) L1" using 1 by (rule frame_ParseStrings)
  also have "frame L1 (ParseId L1)" by (rule frame_ParseId)
  also have "frame (ParseId L1) (ParseDoubleChars (ParseId L1))" by (rule frame_ParseDoubleChars)
  also have "frame (ParseDoubleChars (ParseId L1)) (ParseChars (ParseDoubleChars (ParseId L1)))"
    by (rule frame_ParseChars)
  also have "frame (ParseChars (ParseDoubleChars (ParseId L1))) L2"
    using 2 by (rule frame_ParseNumbers)
  also have "frame L2 L'" unfolding 3 by (rule frame_SkipSpaces)
  finally show ?thesis .
qed

section \<open>The main loop\<close>

lemma get_Some:
  assumes "get s0 = (Some c, s)"
  shows "good s0" and "buf s0 = c # buf s" and "putback (Some c) s = s0"
proof -
  from assms show g: "good s0" by (auto simp: get_def split: if_splits)
  from assms g show b: "buf s0 = c # buf s" by (auto simp: get_def split: list.splits)
  from assms g b have "s = s0\<lparr>buf := buf s\<rparr>" by (auto simp: get_def split: list.splits)
  then show "putback (Some c) s = s0"
    using putback_get [OF g b] by simp
qed

text \<open>A property kept by every turn of the main loop holds when the loop ends.\<close>

lemma loop_invariant:
  assumes step: "\<And>L c cs L'. P L \<Longrightarrow> at_char L c cs \<Longrightarrow> ParseTokens_body L = Inr L' \<Longrightarrow> P L'"
    and stop: "\<And>L s. P L \<Longrightarrow> get (inp L) = (None, s) \<Longrightarrow> P (L\<lparr>inp := s\<rparr>)"
  shows "ParseTokens_loop n L = Some (Inr L') \<Longrightarrow> P L \<Longrightarrow> P L'"
proof (induction n arbitrary: L)
  case 0
  then show ?case by simp
next
  case (Suc n)
  obtain r s where g: "get (inp L) = (r, s)" by (cases "get (inp L)")
  show ?case
  proof (cases r)
    case None
    with Suc.prems g have "L' = L\<lparr>inp := s\<rparr>" by simp
    with Suc.prems(2) g None show ?thesis by (simp add: stop)
  next
    case (Some c)
    note gs = get_Some [OF g [unfolded Some]]
    have at: "at_char L c (buf s)" using gs by (simp add: at_char_def)
    have L: "L\<lparr>inp := putback (Some c) s\<rparr> = L" using gs(3) by simp
    from Suc.prems(1) g Some L obtain L'' where
      b: "ParseTokens_body L = Inr L''" and l: "ParseTokens_loop n L'' = Some (Inr L')"
      by (auto split: sum.splits)
    from step [OF Suc.prems(2) at b] have "P L''" .
    with l show ?thesis by (rule Suc.IH)
  qed
qed

lemma body_J:
  assumes "even_indents input" "loop_inv input L" "at_char L c cs" "ParseTokens_body L = Inr L'"
  shows "loop_inv input L'"
proof -
  have b: "buf (inp L) = c # cs" using assms(3) by (simp add: at_char_def)
  have ev: "even_indents (c # cs)"
    using assms(1,2) b even_indents_suffix [of "c # cs" input] by (simp add: loop_inv_def)
  have 1: "indent_inv (ParseNewLine L)"
    using assms(3) ev assms(2) by (intro Inv_ParseNewLine) (simp_all add: loop_inv_def)
  have 2: "suffix (buf (inp (ParseNewLine L))) input"
    using suffix_ParseNewLine [OF assms(3)] assms(2) b
    by (auto simp: loop_inv_def intro: suffix_order.trans)
  have f: "frame (ParseNewLine L) L'" using assms(4) by (rule frame_body)
  then have "suffix (buf (inp L')) (buf (inp (ParseNewLine L)))" by (simp add: frame_def)
  with 2 have "suffix (buf (inp L')) input" by (rule suffix_order.trans [rotated])
  with Inv_frame [OF f 1] show ?thesis by (simp add: loop_inv_def)
qed

lemma loop_J:
  assumes "even_indents input" "ParseTokens_loop n L = Some (Inr L')" "loop_inv input L"
  shows "loop_inv input L'"
proof (rule loop_invariant [where P = "loop_inv input", OF _ _ assms(2,3)])
  show "loop_inv input L'" if "loop_inv input L" "at_char L c cs" "ParseTokens_body L = Inr L'" for L c cs L'
    using assms(1) that by (rule body_J)
  show "loop_inv input (L\<lparr>inp := s\<rparr>)" if "loop_inv input L" "get (inp L) = (None, s)" for L s
    using that suffix_get' [OF that(2)]
    by (auto simp: loop_inv_def indent_inv_def intro: suffix_order.trans)
qed

lemma balanced_finish_tokens:
  assumes "balanced ts"
  shows "balanced (finish_tokens ts)"
proof -
  have "finish_tokens ts = ts @ [Tok_Newline, Tok_Eof] \<or> finish_tokens ts = ts @ [Tok_Eof]"
    by (simp add: finish_tokens_def)
  then show ?thesis
    using balanced_append_no_dent [OF assms, of "[Tok_Newline, Tok_Eof]"]
      balanced_append_no_dent [OF assms, of "[Tok_Eof]"]
    by auto
qed

lemma ParseTokens_balanced:
  assumes "even_indents input" and "ParseTokens n input = Some (Inr ts)"
  shows "\<forall>k \<le> length ts.
           count_list (take k ts) Tok_Dedent \<le> count_list (take k ts) Tok_Indent"
proof -
  from assms(2) obtain L where l: "ParseTokens_loop n (Lexer_init input) = Some (Inr L)"
    and ts: "ts = finish_tokens (tokens L)"
    by (auto simp: ParseTokens_def split: option.splits sum.splits)
  have "loop_inv input (Lexer_init input)"
    by (simp add: loop_inv_def indent_inv_def Lexer_init_def balanced_def net_def)
  with assms(1) l have "loop_inv input L" by (rule loop_J)
  then have "balanced ts" unfolding ts by (simp add: loop_inv_def indent_inv_def balanced_finish_tokens)
  then show ?thesis
    by (simp add: balanced_def net_def)
qed

text \<open>Termination.\<close>

lemma body_progress:
  assumes at: "at_char L c cs" and pr: "printable c" and b: "ParseTokens_body L = Inr L'"
  shows "suffix (buf (inp L')) cs"
proof -
  from b obtain L1 L2 where
    1: "ParseStrings (ParseNewLine L) = Inr L1"
    and 2: "ParseNumbers (ParseChars (ParseDoubleChars (ParseId L1))) = Inr L2"
    and 3: "L' = L2\<lparr>inp := SkipSpaces (inp L2)\<rparr>"
    by (auto simp: ParseTokens_body_def split: sum.splits)
  let ?A = "ParseId L1"
  let ?B = "ParseDoubleChars ?A"
  let ?C = "ParseChars ?B"
  have f1: "frame (ParseNewLine L) L1" using 1 by (rule frame_ParseStrings)
  have fA: "frame L1 ?A" by (rule frame_ParseId)
  have fB: "frame ?A ?B" by (rule frame_ParseDoubleChars)
  have fC: "frame ?B ?C" by (rule frame_ParseChars)
  have f2: "frame ?C L2" using 2 by (rule frame_ParseNumbers)
  have f3: "frame L2 L'" unfolding 3 by (rule frame_SkipSpaces)
  have sfx: "suffix (buf (inp Y)) cs" if "suffix (buf (inp X)) cs" "frame X Y" for X Y
    using that by (auto simp: frame_def intro: suffix_order.trans)
  consider (nl) "c = CHR 0x0A"
    | (quote) "c = CHR 0x27 \<or> c = CHR 0x22"
    | (ident) "isalpha c \<or> c = CHR ''_''"
    | (punct) "ispunct c" "c \<noteq> CHR 0x27" "c \<noteq> CHR 0x22" "c \<noteq> CHR ''_''"
    | (digit) "isdigit c"
    | (space) "c = CHR '' ''"
    using printable_cases [OF pr] by blast
  then show ?thesis
  proof cases
    case nl
    have "suffix (buf (inp (ParseNewLine L))) cs"
      using at unfolding nl by (rule ParseNewLine_consumes)
    moreover have "frame (ParseNewLine L) L'" using b by (rule frame_body)
    ultimately show ?thesis by (rule sfx)
  next
    case quote
    then have "c \<noteq> CHR 0x0A" by auto
    then have n: "ParseNewLine L = L" using at by (simp add: ParseNewLine_other)
    have "suffix (buf (inp L1)) cs"
      using at quote 1 [unfolded n] by (rule ParseStrings_consumes)
    moreover have "frame L1 L'"
      using fA fB fC f2 f3 by (blast intro: frame_trans)
    ultimately show ?thesis by (rule sfx)
  next
    case ident
    then have ne: "c \<noteq> CHR 0x0A" "c \<noteq> CHR 0x27" "c \<noteq> CHR 0x22"
      by (auto simp: isalpha_def)
    have n: "ParseNewLine L = L" using at ne by (simp add: ParseNewLine_other)
    have s: "L1 = L" using at ne 1 [unfolded n] by (simp add: ParseStrings_other)
    have "suffix (buf (inp ?A)) cs"
      unfolding s using at ident by (rule ParseId_consumes)
    moreover have "frame ?A L'"
      using fB fC f2 f3 by (blast intro: frame_trans)
    ultimately show ?thesis by (rule sfx)
  next
    case punct
    then have ne: "c \<noteq> CHR 0x0A" "\<not> isalpha c"
      by (auto simp: isalpha_def ispunct_def)
    have n: "ParseNewLine L = L" using at ne by (simp add: ParseNewLine_other)
    have s: "L1 = L" using at punct 1 [unfolded n] by (simp add: ParseStrings_other)
    have i: "?A = L" unfolding s using at ne punct by (simp add: ParseId_other)
    have "suffix (buf (inp ?C)) cs"
    proof -
      from ParseDoubleChars_other [OF at]
      show ?thesis
      proof
        assume "ParseDoubleChars L = L"
        then show ?thesis
          unfolding i using at punct(1) by (simp add: ParseChars_consumes)
      next
        assume "suffix (buf (inp (ParseDoubleChars L))) cs"
        then show ?thesis
          unfolding i using frame_ParseChars [of "ParseDoubleChars L"] by (rule sfx)
      qed
    qed
    moreover have "frame ?C L'"
      using f2 f3 by (blast intro: frame_trans)
    ultimately show ?thesis by (rule sfx)
  next
    case digit
    then have ne: "c \<noteq> CHR 0x0A" "c \<noteq> CHR 0x27" "c \<noteq> CHR 0x22" "\<not> isalpha c"
      "c \<noteq> CHR ''_''" "\<not> ispunct c"
      by (auto simp: isalpha_def isdigit_def ispunct_def)
    have n: "ParseNewLine L = L" using at ne by (simp add: ParseNewLine_other)
    have s: "L1 = L" using at ne 1 [unfolded n] by (simp add: ParseStrings_other)
    have i: "?A = L" unfolding s using at ne by (simp add: ParseId_other)
    have d: "?B = L" unfolding i using at digit by (simp add: ParseDoubleChars_digit)
    have p: "?C = L" unfolding d using at ne by (simp add: ParseChars_other)
    have "suffix (buf (inp L2)) cs"
      using at digit 2 [unfolded p] by (rule ParseNumbers_consumes)
    then show ?thesis using f3 by (rule sfx)
  next
    case space
    then have ne: "c \<noteq> CHR 0x0A" "c \<noteq> CHR 0x27" "c \<noteq> CHR 0x22" "\<not> isalpha c"
      "c \<noteq> CHR ''_''" "\<not> ispunct c" "\<not> isdigit c"
      by (auto simp: isalpha_def isdigit_def ispunct_def)
    have n: "ParseNewLine L = L" using at ne by (simp add: ParseNewLine_other)
    have s: "L1 = L" using at ne 1 [unfolded n] by (simp add: ParseStrings_other)
    have i: "?A = L" unfolding s using at ne by (simp add: ParseId_other)
    have d: "?B = L" unfolding i using at space by (simp add: ParseDoubleChars_digit)
    have p: "?C = L" unfolding d using at ne by (simp add: ParseChars_other)
    have q: "L2 = L" using at ne 2 [unfolded p] by (simp add: ParseNumbers_other)
    show ?thesis
      unfolding 3 q using at space by (simp add: at_char_def SkipSpaces_consumes)
  qed
qed

lemma loop_terminates:
  assumes "\<forall>c \<in> set (buf (inp L)). printable c"
  shows "\<exists>n r. ParseTokens_loop n L = Some r"
  using assms
proof (induction "length (buf (inp L))" arbitrary: L rule: less_induct)
  case less
  obtain r s where g: "get (inp L) = (r, s)" by (cases "get (inp L)")
  show ?case
  proof (cases r)
    case None
    with g have "ParseTokens_loop (Suc 0) L = Some (Inr (L\<lparr>inp := s\<rparr>))" by simp
    then show ?thesis by blast
  next
    case (Some c)
    note gs = get_Some [OF g [unfolded Some]]
    have at: "at_char L c (buf s)" using gs by (simp add: at_char_def)
    have L: "L\<lparr>inp := putback (Some c) s\<rparr> = L" using gs(3) by simp
    have pc: "printable c" using less.prems gs(2) by simp
    show ?thesis
    proof (cases "ParseTokens_body L")
      case (Inl e)
      with g Some L have "ParseTokens_loop (Suc 0) L = Some (Inl e)" by simp
      then show ?thesis by blast
    next
      case (Inr L')
      have sf: "suffix (buf (inp L')) (buf s)" using at pc Inr by (rule body_progress)
      then have "length (buf (inp L')) < length (buf (inp L))"
        using gs(2) by (auto dest: suffix_length_le)
      moreover have "\<forall>c \<in> set (buf (inp L')). printable c"
        using less.prems gs(2) sf by (auto dest: set_mono_suffix)
      ultimately obtain n r' where "ParseTokens_loop n L' = Some r'"
        using less.hyps by blast
      with g Some L Inr have "ParseTokens_loop (Suc n) L = Some r'" by simp
      then show ?thesis by blast
    qed
  qed
qed

lemma loop_no_Eof:
  assumes "ParseTokens_loop n L = Some (Inr L')" "Tok_Eof \<notin> set (tokens L)"
  shows "Tok_Eof \<notin> set (tokens L')"
proof (rule loop_invariant [where P = "\<lambda>L. Tok_Eof \<notin> set (tokens L)", OF _ _ assms])
  show "Tok_Eof \<notin> set (tokens L')"
    if "Tok_Eof \<notin> set (tokens L)" "at_char L c cs" "ParseTokens_body L = Inr L'" for L c cs L'
    using Eof_frame [OF frame_body [OF that(3)] Eof_ParseNewLine [OF that(2,1)]] .
  show "Tok_Eof \<notin> set (tokens (L\<lparr>inp := s\<rparr>))" if "Tok_Eof \<notin> set (tokens L)" for L s
    using that by simp
qed

lemma ends_properly_finish:
  "Tok_Eof \<notin> set ts \<Longrightarrow> ends_properly (finish_tokens ts)"
  by (auto simp: ends_properly_def finish_tokens_def butlast_append)

section \<open>The stream after the loop\<close>

text \<open>A stream that is not good has nothing left to read.\<close>

lemma settled_get: "settled s \<Longrightarrow> get s = (r, s') \<Longrightarrow> settled s'"
  by (auto simp: settled_def get_def good_def split: if_splits list.splits)

lemma settled_get_None: "settled s \<Longrightarrow> get s = (None, s') \<Longrightarrow> buf s' = [] \<and> failbit s'"
  by (auto simp: settled_def get_def good_def split: if_splits list.splits)

lemma settled_peek: "settled s \<Longrightarrow> peek s = (r, s') \<Longrightarrow> settled s'"
  by (auto simp: settled_def peek_def good_def split: if_splits list.splits)

lemma settled_putback_Some: "settled s \<Longrightarrow> settled (putback (Some c) s)"
  by (auto simp: settled_def putback_def good_def)

lemma settled_putback_fail: "buf s = [] \<Longrightarrow> failbit s \<Longrightarrow> settled (putback c s)"
  by (auto simp: settled_def putback_def good_def)

lemma settled_read_while: "settled s \<Longrightarrow> read_while P s parsed = (str, s') \<Longrightarrow> settled s'"
  by (auto simp: settled_def read_while_closed good_def split: if_splits)

lemma settled_SkipSpaces: "settled s \<Longrightarrow> settled (SkipSpaces s)"
  by (auto simp: settled_def SkipSpaces_closed good_def split: if_splits)

lemma settled_getline: "settled s \<Longrightarrow> settled (getline s)"
  by (auto simp: settled_def getline_def good_def split: if_splits)

lemma getline_not_eof:
  "settled s \<Longrightarrow> \<not> rdstate_is_eofbit (getline s) \<Longrightarrow> settled (putback (Some c) (getline s))"
  by (auto simp: settled_def getline_def good_def rdstate_is_eofbit_def putback_def
      split: if_splits)

lemma settled_SkipComment: "settled s \<Longrightarrow> settled (SkipComment s)"
proof -
  assume s: "settled s"
  obtain r s' where g: "get s = (r, s')" by (cases "get s")
  note s' = settled_get [OF s g]
  show ?thesis
  proof (cases r)
    case None
    with settled_get_None [OF s] g show ?thesis
      by (simp add: SkipComment_def settled_putback_fail)
  next
    case (Some c)
    with g s' show ?thesis
      by (simp add: SkipComment_def Let_def settled_putback_Some getline_not_eof settled_getline)
  qed
qed

lemma settled_ParseStrings:
  assumes "settled (inp L)" "ParseStrings L = Inr L'"
  shows "settled (inp L')"
proof -
  obtain r s where g: "get (inp L) = (r, s)" by (cases "get (inp L)")
  note s = settled_get [OF assms(1) g]
  show ?thesis
  proof (cases r)
    case None
    with settled_get_None [OF assms(1)] g assms(2) show ?thesis
      by (auto simp: ParseStrings_def settled_putback_fail)
  next
    case (Some c)
    note gs = get_Some [OF g [unfolded Some]]
    have "good s" using gs(1) g Some by (auto simp: get_def good_def split: list.splits)
    then have "settled (s\<lparr>buf := it\<rparr>)" for it by (simp add: settled_def good_def)
    with g Some s assms(2) show ?thesis
      by (auto simp: ParseStrings_def emplace_back_def settled_putback_Some
          split: if_splits sum.splits)
  qed
qed

lemma settled_ParseId: "settled (inp L) \<Longrightarrow> settled (inp (ParseId L))"
proof -
  assume a: "settled (inp L)"
  obtain r s where p: "peek (inp L) = (r, s)" by (cases "peek (inp L)")
  note s = settled_peek [OF a p]
  obtain str s' where rw: "read_while (\<lambda>c. isalnum c \<or> c = CHR ''_'') s [] = (str, s')"
    by (cases "read_while (\<lambda>c. isalnum c \<or> c = CHR ''_'') s []")
  note s' = settled_read_while [OF s rw]
  show ?thesis
    using p rw s s' by (simp add: ParseId_def emplace_back_def split: option.splits)
qed

lemma settled_ParseNumbers:
  assumes "settled (inp L)" "ParseNumbers L = Inr L'"
  shows "settled (inp L')"
proof -
  obtain r s where p: "peek (inp L) = (r, s)" by (cases "peek (inp L)")
  note s = settled_peek [OF assms(1) p]
  obtain str s' where rw: "read_while isdigit s [] = (str, s')"
    by (cases "read_while isdigit s []")
  note s' = settled_read_while [OF s rw]
  show ?thesis
    using p rw s s' assms(2)
    by (auto simp: ParseNumbers_def emplace_back_def split: if_splits)
qed

lemma settled_ParseChars: "settled (inp L) \<Longrightarrow> settled (inp (ParseChars L))"
proof -
  assume a: "settled (inp L)"
  obtain r s where p: "peek (inp L) = (r, s)" by (cases "peek (inp L)")
  note s = settled_peek [OF a p]
  obtain r' s' where g: "get s = (r', s')" by (cases "get s")
  note s' = settled_get [OF s g]
  show ?thesis
    using p g s s' by (simp add: ParseChars_def emplace_back_def settled_SkipComment
        split: option.splits)
qed

lemma settled_ParseDoubleChars: "settled (inp L) \<Longrightarrow> settled (inp (ParseDoubleChars L))"
proof -
  assume a: "settled (inp L)"
  obtain r s where g: "get (inp L) = (r, s)" by (cases "get (inp L)")
  note s = settled_get [OF a g]
  obtain r' s' where p: "peek s = (r', s')" by (cases "peek s")
  note s' = settled_peek [OF s p]
  obtain r'' s'' where g': "get s' = (r'', s'')" by (cases "get s'")
  note s'' = settled_get [OF s' g']
  have pb: "settled (putback r s')"
  proof (cases r)
    case None
    from settled_get_None [OF a] g None have "buf s = [] \<and> failbit s" by simp
    with p have "buf s' = [] \<and> failbit s'"
      by (auto simp: peek_def good_def split: if_splits)
    then show ?thesis by (simp add: settled_putback_fail)
  next
    case (Some c)
    with s' show ?thesis by (simp add: settled_putback_Some)
  qed
  show ?thesis
    using g p g' s'' pb by (simp add: ParseDoubleChars_def Let_def emplace_back_def)
qed

lemma settled_ParseIndent: "settled (inp L) \<Longrightarrow> settled (inp (ParseIndent L))"
proof -
  assume a: "settled (inp L)"
  obtain cur k s where l: "ParseIndent_loop (inp L) None 0 = (cur, k, s)"
    by (cases "ParseIndent_loop (inp L) None 0") auto
  define s' where "s' = (if \<not> rdstate_is_eofbit s then putback cur s else s)"
  obtain r s'' where p: "peek s' = (r, s'')" by (cases "peek s'")
  have "settled s'"
  proof (cases "good (inp L)")
    case False
    with a have "buf (inp L) = []" by (simp add: settled_def)
    with False l have "buf s = [] \<and> failbit s"
      by (auto simp: ParseIndent_loop_closed)
    then show ?thesis
      by (simp add: s'_def settled_putback_fail rdstate_is_eofbit_def)
  next
    case True
    show ?thesis
    proof (cases "dropWhile (\<lambda>c. c = CHR '' '') (buf (inp L)) = []")
      case e: True
      with True l have "buf s = [] \<and> failbit s"
        by (auto simp: ParseIndent_loop_closed simp del: dropWhile_eq_Nil_conv)
      then show ?thesis
        by (simp add: s'_def settled_putback_fail rdstate_is_eofbit_def)
    next
      case ne: False
      with True l have "good s" and "\<exists>c. cur = Some c"
        by (auto simp: ParseIndent_loop_closed good_def simp del: dropWhile_eq_Nil_conv)
      then obtain c where "cur = Some c" and "settled s" and "\<not> rdstate_is_eofbit s"
        by (auto simp: settled_def good_def rdstate_is_eofbit_def)
      then show ?thesis
        by (simp add: s'_def settled_putback_Some)
    qed
  qed
  then have "settled s''" using p by (rule settled_peek)
  then show ?thesis
    using l p by (simp add: ParseIndent_def Let_def s'_def [symmetric])
qed

lemma settled_ParseNewLine: "settled (inp L) \<Longrightarrow> settled (inp (ParseNewLine L))"
proof -
  assume a: "settled (inp L)"
  obtain r s where g: "get (inp L) = (r, s)" by (cases "get (inp L)")
  note s = settled_get [OF a g]
  show ?thesis
  proof (cases r)
    case None
    with settled_get_None [OF a] g show ?thesis
      by (simp add: ParseNewLine_def settled_putback_fail)
  next
    case (Some c)
    with g s show ?thesis
      by (simp add: ParseNewLine_def settled_putback_Some settled_ParseIndent emplace_back_def)
  qed
qed

lemma settled_body:
  assumes "settled (inp L)" "ParseTokens_body L = Inr L'"
  shows "settled (inp L')"
proof -
  from assms(2) obtain L1 L2 where
    1: "ParseStrings (ParseNewLine L) = Inr L1" and
    2: "ParseNumbers (ParseChars (ParseDoubleChars (ParseId L1))) = Inr L2" and
    3: "L' = L2\<lparr>inp := SkipSpaces (inp L2)\<rparr>"
    by (auto simp: ParseTokens_body_def split: sum.splits)
  have "settled (inp L1)"
    using settled_ParseNewLine [OF assms(1)] 1 by (rule settled_ParseStrings)
  then have "settled (inp (ParseChars (ParseDoubleChars (ParseId L1))))"
    by (intro settled_ParseChars settled_ParseDoubleChars settled_ParseId)
  then have "settled (inp L2)" using 2 by (rule settled_ParseNumbers)
  then show ?thesis by (simp add: 3 settled_SkipSpaces)
qed

lemma loop_ends_failed:
  "ParseTokens_loop n L = Some (Inr L') \<Longrightarrow> failbit (inp L')"
proof (induction n arbitrary: L)
  case 0
  then show ?case by simp
next
  case (Suc n)
  obtain r s where g: "get (inp L) = (r, s)" by (cases "get (inp L)")
  show ?case
  proof (cases r)
    case None
    with Suc.prems g have "L' = L\<lparr>inp := s\<rparr>" by simp
    moreover from g None have "failbit s"
      by (auto simp: get_def split: if_splits list.splits)
    ultimately show ?thesis by simp
  next
    case (Some c)
    with Suc.prems g obtain L'' where "ParseTokens_loop n L'' = Some (Inr L')"
      by (auto split: sum.splits)
    then show ?thesis by (rule Suc.IH)
  qed
qed

lemma loop_consumes:
  assumes "ParseTokens_loop n (Lexer_init input) = Some (Inr L)"
  shows "buf (inp L) = []"
proof -
  have "settled (inp (Lexer_init input))"
    by (simp add: Lexer_init_def settled_def good_def)
  with assms have "settled (inp L)"
  proof (rule loop_invariant [where P = "\<lambda>L. settled (inp L)", rotated 2])
    show "settled (inp L')" if "settled (inp L)" "ParseTokens_body L = Inr L'" for L L'
      using that by (rule settled_body)
    show "settled (inp (L\<lparr>inp := s\<rparr>))" if "settled (inp L)" "get (inp L) = (None, s)" for L s
      using settled_get [OF that] by simp
  qed
  moreover have "failbit (inp L)" using assms by (rule loop_ends_failed)
  ultimately show ?thesis by (simp add: settled_def good_def)
qed

section \<open>The exceptions of the lexer\<close>

lemma ParseStrings_loop_error:
  "ParseStrings_loop quote_type it str = Inl e \<Longrightarrow> string_error e"
proof (induction quote_type it str rule: ParseStrings_loop.induct)
  case (1 quote_type str)
  then show ?case by simp
next
  case (2 quote_type current_char it str)
  show ?case
  proof (cases "current_char = quote_type")
    case True
    with "2.prems" show ?thesis by simp
  next
    case q: False
    show ?thesis
    proof (cases "current_char = CHR 0x5C")
      case True
      show ?thesis
      proof (cases it)
        case Nil
        with "2.prems" q True show ?thesis by (auto simp: string_error_def)
      next
        case (Cons escaped_char it')
        show ?thesis
        proof (cases "escape escaped_char")
          case None
          with "2.prems" q True Cons show ?thesis by (auto simp: string_error_def)
        next
          case (Some c)
          with "2.prems" q True Cons
          have "ParseStrings_loop quote_type it' (str @ [c]) = Inl e" by simp
          with "2.IH"(1) [OF q True Cons Some] show ?thesis by simp
        qed
      qed
    next
      case b: False
      show ?thesis
      proof (cases "current_char = CHR 0x0A \<or> current_char = CHR 0x0D")
        case True
        with "2.prems" q b show ?thesis by (auto simp: string_error_def)
      next
        case False
        with "2.prems" q b
        have "ParseStrings_loop quote_type it (str @ [current_char]) = Inl e" by simp
        with "2.IH"(2) [OF q b False] show ?thesis by simp
      qed
    qed
  qed
qed

lemma ParseStrings_error: "ParseStrings L = Inl e \<Longrightarrow> string_error e"
  by (auto simp: ParseStrings_def split: prod.splits option.splits if_splits sum.splits
      dest: ParseStrings_loop_error)

lemma ParseNumbers_error: "ParseNumbers L = Inl e \<Longrightarrow> e = out_of_range"
  by (auto simp: ParseNumbers_def split: prod.splits if_splits)

lemma body_error: "ParseTokens_body L = Inl e \<Longrightarrow> e = out_of_range \<or> string_error e"
  by (auto simp: ParseTokens_body_def split: sum.splits
      dest: ParseStrings_error ParseNumbers_error)

lemma loop_error:
  "ParseTokens_loop n L = Some (Inl e) \<Longrightarrow> e = out_of_range \<or> string_error e"
proof (induction n arbitrary: L)
  case 0
  then show ?case by simp
next
  case (Suc n)
  obtain r s where g: "get (inp L) = (r, s)" by (cases "get (inp L)")
  show ?case
  proof (cases r)
    case None
    with Suc.prems g show ?thesis by simp
  next
    case (Some c)
    show ?thesis
    proof (cases "ParseTokens_body (L\<lparr>inp := putback (Some c) s\<rparr>)")
      case (Inl e')
      with Suc.prems g Some have "e' = e" by simp
      with Inl show ?thesis by (simp add: body_error)
    next
      case (Inr L')
      with Suc.prems g Some have "ParseTokens_loop n L' = Some (Inl e)" by simp
      then show ?thesis by (rule Suc.IH)
    qed
  qed
qed

section \<open>The token vector of the lexer\<close>

lemma fuel_5: "(5::nat) = Suc (Suc (Suc (Suc (Suc 0))))"
  by simp

lemma fuel_2: "(2::nat) = Suc (Suc 0)"
  by simp

text \<open>
  A line indented by an odd number of spaces: the division by two drops the odd space. In
  \<open>odd_input\<close> the lines are indented by 0, 1, 2 and 0 spaces; the differences 1 and 1 give no
  \<open>Indent\<close>, the difference -2 gives one \<open>Dedent\<close>, so the first seven tokens hold a
  \<open>Dedent\<close> and no \<open>Indent\<close>.
\<close>

theorem odd_indent_unbalanced:
  "ParseTokens 5 odd_input = Some (Inr odd_tokens)
   \<and> count_list (take 7 odd_tokens) Tok_Indent < count_list (take 7 odd_tokens) Tok_Dedent"
  by (simp add: fuel_5 odd_input_def odd_tokens_def lexer_defs signed_divide_int_def)

text \<open>
  C4, as amended. When every line of the text after the first that is not blank and not a
  comment starts with an even number of spaces, no prefix of the token vector holds more
  \<open>Dedent\<close> than \<open>Indent\<close> tokens. On every line, \<open>ParseIndent\<close> reads the leading spaces
  (it is called on a good stream, after the line feed); on a line that is blank or a comment it
  appends nothing and keeps the tracked number of spaces; on any other line it appends the
  absolute value of \<open>indents_count\<close> tokens, \<open>Indent\<close> if \<open>indents_count\<close> is positive and
  \<open>Dedent\<close> otherwise, where \<open>indents_count\<close> is the number of leading spaces minus the
  tracked number, divided by two towards zero, and the tracked number becomes the number of
  leading spaces.
\<close>

theorem indent_balance:
  "(even_indents input \<and> ParseTokens n input = Some (Inr ts)
      \<longrightarrow> (\<forall>k \<le> length ts.
             count_list (take k ts) Tok_Dedent \<le> count_list (take k ts) Tok_Indent))
   \<and> (good (inp L)
      \<longrightarrow> tokens (ParseIndent L) =
            (if blank_line (buf (inp L)) then tokens L
             else tokens L @
               replicate (nat \<bar>indents_count L\<bar>)
                 (if indents_count L > 0 then Tok_Indent else Tok_Dedent))
        \<and> begin_spaces_count (ParseIndent L) =
            (if blank_line (buf (inp L)) then begin_spaces_count L
             else int (leading_spaces (buf (inp L)))))"
  using ParseTokens_balanced [of input n ts] ParseIndent_good [of L] by blast

theorem indent_balance_witness:
  "even_indents even_input \<and> ParseTokens 5 even_input = Some (Inr even_tokens)
   \<and> count_list (take 6 even_tokens) Tok_Dedent \<le> count_list (take 6 even_tokens) Tok_Indent
   \<and> good (inp indent_Lexer)
   \<and> tokens (ParseIndent indent_Lexer)
        = [Tok_Id ''a'', Tok_Newline, Tok_Indent, Tok_Indent]
   \<and> begin_spaces_count (ParseIndent indent_Lexer) = 4"
proof -
  have e: "even_indents even_input"
    by (simp add: even_input_def blank_line_def leading_spaces_def)
  have p: "ParseTokens 5 even_input = Some (Inr even_tokens)"
    by (simp add: fuel_5 even_input_def even_tokens_def lexer_defs signed_divide_int_def)
  have g: "good (inp indent_Lexer)"
    by (simp add: indent_Lexer_def good_def)
  have k: "(6::nat) \<le> length even_tokens"
    by (simp add: even_tokens_def)
  from indent_balance [of even_input 5 even_tokens indent_Lexer] e p g
  have "(\<forall>k \<le> length even_tokens.
           count_list (take k even_tokens) Tok_Dedent \<le> count_list (take k even_tokens) Tok_Indent)"
    and t: "tokens (ParseIndent indent_Lexer) =
            (if blank_line (buf (inp indent_Lexer)) then tokens indent_Lexer
             else tokens indent_Lexer @
               replicate (nat \<bar>indents_count indent_Lexer\<bar>)
                 (if indents_count indent_Lexer > 0 then Tok_Indent else Tok_Dedent))"
    and b: "begin_spaces_count (ParseIndent indent_Lexer) =
            (if blank_line (buf (inp indent_Lexer)) then begin_spaces_count indent_Lexer
             else int (leading_spaces (buf (inp indent_Lexer))))"
    by blast+
  then have c: "count_list (take 6 even_tokens) Tok_Dedent \<le> count_list (take 6 even_tokens) Tok_Indent"
    using k by blast
  have v: "\<not> blank_line (buf (inp indent_Lexer))" "indents_count indent_Lexer = 2"
    "leading_spaces (buf (inp indent_Lexer)) = 4"
    by (simp_all add: indent_Lexer_def blank_line_def leading_spaces_def indents_count_def
        signed_divide_int_def)
  show ?thesis
    using e p c g t b v by (simp add: indent_Lexer_def numeral_2_eq_2)
qed

text \<open>
  A number that does not fit an \<open>int\<close>: \<open>std::stoi\<close> throws \<open>std::out_of_range\<close> and the
  construction of the lexer ends with that exception.
\<close>

theorem number_out_of_range:
  "ParseTokens 2 ''99999999999'' = Some (Inl out_of_range)"
  by (simp add: fuel_2 lexer_defs)

text \<open>
  A tab outside a string literal: no function of the loop body reads it, and the loop runs for
  ever.
\<close>

lemma tab_body:
  "ParseTokens_body (Lexer_init [CHR 0x09]) = Inr (Lexer_init [CHR 0x09])"
  by (simp add: lexer_defs)

lemma tab_loops: "ParseTokens n [CHR 0x09] = None"
proof -
  have "ParseTokens_loop n (Lexer_init [CHR 0x09]) = None"
  proof (induction n)
    case 0
    show ?case by simp
  next
    case (Suc n)
    have g: "get (inp (Lexer_init [CHR 0x09]))
        = (Some (CHR 0x09), (inp (Lexer_init [CHR 0x09]))\<lparr>buf := []\<rparr>)"
      by (simp add: Lexer_init_def get_def good_def)
    have r: "(Lexer_init [CHR 0x09])
        \<lparr>inp := putback (Some (CHR 0x09)) ((inp (Lexer_init [CHR 0x09]))\<lparr>buf := []\<rparr>)\<rparr>
        = Lexer_init [CHR 0x09]"
      by (simp add: Lexer_init_def putback_def)
    show ?case
      by (simp add: g r tab_body Suc.IH)
  qed
  then show ?thesis by (simp add: ParseTokens_def)
qed

text \<open>
  C5, as amended. On a text of printable ASCII characters and line feeds the construction of
  the lexer ends: the loop stops after some number of rounds, either with an exception, which
  is the \<open>std::out_of_range\<close> of a number or one of the \<open>std::logic_error\<close> of a string
  literal, or with the whole text read. In the second case the token vector ends with its only
  \<open>Eof\<close> token, and the token before \<open>Eof\<close>, if there is any, is \<open>Newline\<close> or
  \<open>Dedent\<close>.
\<close>

theorem lexer_total:
  assumes "\<forall>c \<in> set input. printable c"
  shows "\<exists>n r. ParseTokens_loop n (Lexer_init input) = Some r
    \<and> (case r of
          Inl e \<Rightarrow> ParseTokens n input = Some (Inl e) \<and> (e = out_of_range \<or> string_error e)
        | Inr L \<Rightarrow>
            buf (inp L) = []
            \<and> ParseTokens n input = Some (Inr (finish_tokens (tokens L)))
            \<and> ends_properly (finish_tokens (tokens L)))"
proof -
  have "\<forall>c \<in> set (buf (inp (Lexer_init input))). printable c"
    using assms by (simp add: Lexer_init_def)
  then obtain n r where l: "ParseTokens_loop n (Lexer_init input) = Some r"
    using loop_terminates by blast
  show ?thesis
  proof (cases r)
    case (Inl e)
    with l have "ParseTokens n input = Some (Inl e)" by (simp add: ParseTokens_def)
    moreover have "e = out_of_range \<or> string_error e"
      using l [unfolded Inl] by (rule loop_error)
    ultimately show ?thesis using l Inl by force
  next
    case (Inr L)
    have "Tok_Eof \<notin> set (tokens L)"
      using l [unfolded Inr] by (rule loop_no_Eof) (simp add: Lexer_init_def)
    then have "ends_properly (finish_tokens (tokens L))" by (rule ends_properly_finish)
    moreover from l Inr have "ParseTokens n input = Some (Inr (finish_tokens (tokens L)))"
      by (simp add: ParseTokens_def)
    moreover have "buf (inp L) = []" using l [unfolded Inr] by (rule loop_consumes)
    ultimately show ?thesis using l Inr by force
  qed
qed

theorem lexer_total_witness:
  "list_all printable even_input
   \<and> (\<exists>n r. ParseTokens_loop n (Lexer_init even_input) = Some r
    \<and> (case r of
          Inl e \<Rightarrow>
            ParseTokens n even_input = Some (Inl e) \<and> (e = out_of_range \<or> string_error e)
        | Inr L \<Rightarrow>
            buf (inp L) = []
            \<and> ParseTokens n even_input = Some (Inr (finish_tokens (tokens L)))
            \<and> ends_properly (finish_tokens (tokens L))))"
proof -
  have p: "\<forall>c \<in> set even_input. printable c"
    by (simp add: even_input_def printable_def)
  then have "list_all printable even_input" by (simp add: list_all_iff)
  with lexer_total [OF p] show ?thesis by blast
qed

end
